theory Spec2Isabelle
  imports Complex_Main "HOL-Library.AList"
begin

section \<open>Python values\<close>

text \<open>
  The exceptions that the modelled code can raise. \<open>NoSuchUnit\<close> is not a Python
  exception: the model names a unit by its key in \<open>timed_drops\<close>, where the source calls a
  method on the unit object itself, and \<open>NoSuchUnit\<close> is what an operation answers for a key
  the campaign does not own. No theorem below relies on it.
\<close>

datatype exn = AttributeError | ZeroDivisionError | KeyError | TypeError | NoSuchUnit

text \<open>
  Decoded JSON, as \<open>JsonType\<close> values reach the code. A dict is an association list read
  with \<open>map_of\<close>. Numbers are integers; no branch of the code looks at a number.
\<close>

datatype json =
    JNull
  | JBool bool
  | JNum int
  | JStr string
  | JArr "json list"
  | JObj "(string \<times> json) list"

text \<open>Truth value of a decoded JSON value, as \<open>if x\<close> and \<open>not x\<close> test it.\<close>

fun truthy :: "json \<Rightarrow> bool" where
  "truthy JNull = False"
| "truthy (JBool b) = b"
| "truthy (JNum n) = (n \<noteq> 0)"
| "truthy (JStr s) = (s \<noteq> [])"
| "truthy (JArr xs) = (xs \<noteq> [])"
| "truthy (JObj kvs) = (kvs \<noteq> [])"

text \<open>\<open>v[key]\<close> for a string key: only a dict can be indexed by a string.\<close>

fun py_getitem :: "json \<Rightarrow> string \<Rightarrow> exn + json" where
  "py_getitem (JObj kvs) key =
     (case map_of kvs key of None \<Rightarrow> Inl KeyError | Some v \<Rightarrow> Inr v)"
| "py_getitem JNull key = Inl TypeError"
| "py_getitem (JBool b) key = Inl TypeError"
| "py_getitem (JNum n) key = Inl TypeError"
| "py_getitem (JStr s) key = Inl TypeError"
| "py_getitem (JArr xs) key = Inl TypeError"

fun starts_with :: "string \<Rightarrow> string \<Rightarrow> bool" where
  "starts_with [] s = True"
| "starts_with (p # ps) [] = False"
| "starts_with (p # ps) (x # xs) = (p = x \<and> starts_with ps xs)"

fun substring :: "string \<Rightarrow> string \<Rightarrow> bool" where
  "substring p [] = (p = [])"
| "substring p (x # xs) = (starts_with p (x # xs) \<or> substring p xs)"

text \<open>
  \<open>key in v\<close> for a string key: key membership in a dict, element membership in a list,
  substring test in a string, \<open>TypeError\<close> for a value that is not a container.
\<close>

fun py_contains :: "string \<Rightarrow> json \<Rightarrow> exn + bool" where
  "py_contains key (JObj kvs) = Inr (map_of kvs key \<noteq> None)"
| "py_contains key (JArr xs) = Inr (JStr key \<in> set xs)"
| "py_contains key (JStr s) = Inr (substring key s)"
| "py_contains key JNull = Inl TypeError"
| "py_contains key (JBool b) = Inl TypeError"
| "py_contains key (JNum n) = Inl TypeError"

section \<open>Game\<close>

record game =
  game_id :: int
  game_name :: string

text \<open>
  The right operand of \<open>__eq__\<close> is any object: a \<open>Game\<close> or something else.
  \<open>Game_eq\<close> answers \<open>None\<close> where the source returns \<open>NotImplemented\<close>.
\<close>

datatype pyobj = GameObj game | OtherObj

fun Game_eq :: "game \<Rightarrow> pyobj \<Rightarrow> bool option" where
  "Game_eq self (GameObj other) = Some (game_id self = game_id other)"
| "Game_eq self OtherObj = None"

text \<open>
  \<open>__hash__\<close> hashes the tuple of the class name and the id; the tuple hash of the
  interpreter is the parameter \<open>h\<close>.
\<close>

definition Game_hash :: "(string \<times> int \<Rightarrow> int) \<Rightarrow> game \<Rightarrow> int" where
  "Game_hash h self = h (''Game'', game_id self)"

section \<open>Units and campaigns\<close>

text \<open>
  A \<open>TimedDrop\<close> object (the fields of \<open>BaseDrop\<close> and of \<open>TimedDrop\<close>). Timestamps are the
  parsed \<open>datetime\<close> values, as seconds. Each \<open>cached_property\<close> of the class is a field
  holding \<open>None\<close> while the instance dictionary has no entry of that name and \<open>Some v\<close>
  once a read has stored \<open>v\<close> there. The quotient \<open>progress\<close>, a float in the source, is the
  exact rational; the quotients that the theorems below name, 1 and one half, are floats
  that the division of the source yields exactly.
\<close>

record timed_drop =
  drop_id :: string
  drop_name :: string
  rewards :: "string list"
  drop_starts_at :: int
  drop_ends_at :: int
  claim_id :: "string option"
  is_claimed :: bool
  precondition_drops :: "string list"
  current_minutes :: int
  required_minutes :: int
  cached_preconditions :: "bool option"
  cached_remaining_minutes :: "int option"
  cached_progress :: "rat option"

text \<open>
  A \<open>DropsCampaign\<close> object together with the units it owns: \<open>timed_drops\<close> is the dict,
  in insertion order. A unit's back reference \<open>self.campaign\<close> is the enclosing record.
  \<open>gql_log\<close> lists the claim tokens of the requests sent through \<open>_twitch\<close> so far.
\<close>

record campaign =
  campaign_id :: string
  campaign_name :: string
  game :: game
  starts_at :: int
  ends_at :: int
  allowed_channels :: "string list"
  timed_drops :: "(string \<times> timed_drop) list"
  cached_claimed_drops :: "int option"
  cached_remaining_drops :: "int option"
  cached_total_remaining_minutes :: "int option"
  cached_campaign_progress :: "rat option"
  gql_log :: "string list"

text \<open>The outcome of a call: what it returned or raised, and the object graph it left.\<close>

type_synonym 'a outcome = "(exn + 'a) \<times> campaign"

subsection \<open>Construction from a snapshot\<close>

text \<open>
  The snapshot records, with the fields the constructors read: the timestamps already
  parsed, \<open>benefitEdges\<close> reduced to the benefit names, \<open>preconditionDrops\<close> to the ids.
\<close>

record drop_data =
  d_id :: string
  d_name :: string
  d_benefits :: "string list"
  d_startAt :: int
  d_endAt :: int
  d_dropInstanceID :: "string option"
  d_isClaimed :: bool
  d_currentMinutesWatched :: int
  d_requiredMinutesWatched :: int
  d_preconditionDrops :: "string list option"

record campaign_data =
  c_id :: string
  c_name :: string
  c_game :: game
  c_startAt :: int
  c_endAt :: int
  c_channels :: "string list option"
  c_timeBasedDrops :: "drop_data list"

definition TimedDrop_init :: "drop_data \<Rightarrow> timed_drop" where
  "TimedDrop_init data =
     \<lparr>drop_id = d_id data,
      drop_name = d_name data,
      rewards = d_benefits data,
      drop_starts_at = d_startAt data,
      drop_ends_at = d_endAt data,
      claim_id = d_dropInstanceID data,
      is_claimed = d_isClaimed data,
      precondition_drops = (case d_preconditionDrops data of None \<Rightarrow> [] | Some ps \<Rightarrow> ps),
      current_minutes =
        (if d_isClaimed data then d_requiredMinutesWatched data
         else d_currentMinutesWatched data),
      required_minutes = d_requiredMinutesWatched data,
      cached_preconditions = None,
      cached_remaining_minutes = None,
      cached_progress = None\<rparr>"

text \<open>
  The dict comprehension: a later snapshot record with an id already seen replaces the
  unit at the position of the first.
\<close>

definition build_drops :: "drop_data list \<Rightarrow> (string \<times> timed_drop) list" where
  "build_drops ds = fold (\<lambda>d acc. AList.update (d_id d) (TimedDrop_init d) acc) ds []"

definition DropsCampaign_init :: "campaign_data \<Rightarrow> campaign" where
  "DropsCampaign_init data =
     \<lparr>campaign_id = c_id data,
      campaign_name = c_name data,
      game = c_game data,
      starts_at = c_startAt data,
      ends_at = c_endAt data,
      allowed_channels = (case c_channels data of None \<Rightarrow> [] | Some chs \<Rightarrow> chs),
      timed_drops = build_drops (c_timeBasedDrops data),
      cached_claimed_drops = None,
      cached_remaining_drops = None,
      cached_total_remaining_minutes = None,
      cached_campaign_progress = None,
      gql_log = []\<rparr>"

subsection \<open>Addressing a unit\<close>

definition get_drop :: "campaign \<Rightarrow> string \<Rightarrow> timed_drop option" where
  "get_drop c k = map_of (timed_drops c) k"

text \<open>An assignment to attributes of the unit object stored under \<open>k\<close>.\<close>

definition upd_drop :: "string \<Rightarrow> (timed_drop \<Rightarrow> timed_drop) \<Rightarrow> campaign \<Rightarrow> campaign" where
  "upd_drop k f c = c\<lparr>timed_drops := AList.map_entry k f (timed_drops c)\<rparr>"

subsection \<open>Derived values of a unit\<close>

text \<open>\<open>TimedDrop.remaining_minutes\<close>, a cached property.\<close>

definition TimedDrop_remaining_minutes :: "campaign \<Rightarrow> string \<Rightarrow> int outcome" where
  "TimedDrop_remaining_minutes c k =
     (case get_drop c k of
        None \<Rightarrow> (Inl NoSuchUnit, c)
      | Some d \<Rightarrow>
          (case cached_remaining_minutes d of
             Some v \<Rightarrow> (Inr v, c)
           | None \<Rightarrow>
               (let v = required_minutes d - current_minutes d
                in (Inr v, upd_drop k (\<lambda>d. d\<lparr>cached_remaining_minutes := Some v\<rparr>) c))))"

text \<open>
  \<open>TimedDrop.progress\<close>, a cached property. The true division of two ints raises
  \<open>ZeroDivisionError\<close> for a zero divisor, and then nothing is stored.
\<close>

definition TimedDrop_progress :: "campaign \<Rightarrow> string \<Rightarrow> rat outcome" where
  "TimedDrop_progress c k =
     (case get_drop c k of
        None \<Rightarrow> (Inl NoSuchUnit, c)
      | Some d \<Rightarrow>
          (case cached_progress d of
             Some v \<Rightarrow> (Inr v, c)
           | None \<Rightarrow>
               (if required_minutes d = 0 then (Inl ZeroDivisionError, c)
                else
                  (let v = of_int (current_minutes d) / of_int (required_minutes d)
                   in (Inr v, upd_drop k (\<lambda>d. d\<lparr>cached_progress := Some v\<rparr>) c)))))"

text \<open>
  The generator inside \<open>all(...)\<close> of \<open>BaseDrop.preconditions\<close>: the ids are looked up in
  order, a missing one raises \<open>KeyError\<close>, the first unclaimed one ends the scan.
\<close>

fun all_claimed :: "(string \<times> timed_drop) list \<Rightarrow> string list \<Rightarrow> exn + bool" where
  "all_claimed ds [] = Inr True"
| "all_claimed ds (pid # pids) =
     (case map_of ds pid of
        None \<Rightarrow> Inl KeyError
      | Some p \<Rightarrow> if is_claimed p then all_claimed ds pids else Inr False)"

text \<open>\<open>BaseDrop.preconditions\<close>, a cached property.\<close>

definition BaseDrop_preconditions :: "campaign \<Rightarrow> string \<Rightarrow> bool outcome" where
  "BaseDrop_preconditions c k =
     (case get_drop c k of
        None \<Rightarrow> (Inl NoSuchUnit, c)
      | Some d \<Rightarrow>
          (case cached_preconditions d of
             Some v \<Rightarrow> (Inr v, c)
           | None \<Rightarrow>
               (case all_claimed (timed_drops c) (precondition_drops d) of
                  Inl e \<Rightarrow> (Inl e, c)
                | Inr v \<Rightarrow> (Inr v, upd_drop k (\<lambda>d. d\<lparr>cached_preconditions := Some v\<rparr>) c))))"

text \<open>\<open>DropsCampaign.active\<close>, \<open>upcoming\<close> and \<open>expired\<close> at the clock reading \<open>now\<close>.\<close>

definition active :: "campaign \<Rightarrow> int \<Rightarrow> bool" where
  "active c now = (starts_at c \<le> now \<and> now < ends_at c)"

definition upcoming :: "campaign \<Rightarrow> int \<Rightarrow> bool" where
  "upcoming c now = (now < starts_at c)"

definition expired :: "campaign \<Rightarrow> int \<Rightarrow> bool" where
  "expired c now = (ends_at c \<le> now)"

text \<open>
  \<open>BaseDrop.can_earn\<close>. The conjunction reads \<open>preconditions\<close> first, which may fill its
  cache or raise; \<open>now1\<close> is the clock reading inside \<open>campaign.active\<close>, \<open>now2\<close> the one of
  the unit's own window.
\<close>

definition can_earn :: "campaign \<Rightarrow> string \<Rightarrow> int \<Rightarrow> int \<Rightarrow> bool outcome" where
  "can_earn c k now1 now2 =
     (case BaseDrop_preconditions c k of
        (Inl e, c') \<Rightarrow> (Inl e, c')
      | (Inr p, c') \<Rightarrow>
          (case get_drop c' k of
             None \<Rightarrow> (Inl NoSuchUnit, c')
           | Some d \<Rightarrow>
               (Inr (p \<and> \<not> is_claimed d \<and> active c' now1
                       \<and> drop_starts_at d \<le> now2 \<and> now2 < drop_ends_at d), c')))"

text \<open>\<open>BaseDrop.can_claim\<close>.\<close>

definition can_claim :: "timed_drop \<Rightarrow> bool" where
  "can_claim d = (claim_id d \<noteq> None)"

subsection \<open>Aggregates of a campaign\<close>

text \<open>\<open>DropsCampaign.total_drops\<close>.\<close>

definition total_drops :: "campaign \<Rightarrow> int" where
  "total_drops c = int (length (timed_drops c))"

text \<open>\<open>DropsCampaign.claimed_drops\<close> and \<open>remaining_drops\<close>, cached properties.\<close>

definition count_claimed :: "(string \<times> timed_drop) list \<Rightarrow> int" where
  "count_claimed ds = (\<Sum>(k, d) \<leftarrow> ds. if is_claimed d then 1 else 0)"

definition count_unclaimed :: "(string \<times> timed_drop) list \<Rightarrow> int" where
  "count_unclaimed ds = (\<Sum>(k, d) \<leftarrow> ds. if \<not> is_claimed d then 1 else 0)"

definition claimed_drops :: "campaign \<Rightarrow> int outcome" where
  "claimed_drops c =
     (case cached_claimed_drops c of
        Some v \<Rightarrow> (Inr v, c)
      | None \<Rightarrow>
          (let v = count_claimed (timed_drops c)
           in (Inr v, c\<lparr>cached_claimed_drops := Some v\<rparr>)))"

definition remaining_drops :: "campaign \<Rightarrow> int outcome" where
  "remaining_drops c =
     (case cached_remaining_drops c of
        Some v \<Rightarrow> (Inr v, c)
      | None \<Rightarrow>
          (let v = count_unclaimed (timed_drops c)
           in (Inr v, c\<lparr>cached_remaining_drops := Some v\<rparr>)))"

text \<open>
  The sum inside \<open>DropsCampaign.remaining_minutes\<close>: each unit's cached property is read
  in dict order, which fills the caches that were empty.
\<close>

fun sum_remaining :: "string list \<Rightarrow> campaign \<Rightarrow> int outcome" where
  "sum_remaining [] c = (Inr 0, c)"
| "sum_remaining (k # ks) c =
     (case TimedDrop_remaining_minutes c k of
        (Inl e, c') \<Rightarrow> (Inl e, c')
      | (Inr v, c') \<Rightarrow>
          (case sum_remaining ks c' of
             (Inl e, c'') \<Rightarrow> (Inl e, c'')
           | (Inr s, c'') \<Rightarrow> (Inr (v + s), c'')))"

definition total_remaining_minutes :: "campaign \<Rightarrow> int outcome" where
  "total_remaining_minutes c =
     (case cached_total_remaining_minutes c of
        Some v \<Rightarrow> (Inr v, c)
      | None \<Rightarrow>
          (case sum_remaining (map fst (timed_drops c)) c of
             (Inl e, c') \<Rightarrow> (Inl e, c')
           | (Inr v, c') \<Rightarrow> (Inr v, c'\<lparr>cached_total_remaining_minutes := Some v\<rparr>)))"

text \<open>
  The sum inside \<open>DropsCampaign.progress\<close>; a unit whose \<open>progress\<close> raises ends it.
\<close>

fun sum_progress :: "string list \<Rightarrow> campaign \<Rightarrow> rat outcome" where
  "sum_progress [] c = (Inr 0, c)"
| "sum_progress (k # ks) c =
     (case TimedDrop_progress c k of
        (Inl e, c') \<Rightarrow> (Inl e, c')
      | (Inr v, c') \<Rightarrow>
          (case sum_progress ks c' of
             (Inl e, c'') \<Rightarrow> (Inl e, c'')
           | (Inr s, c'') \<Rightarrow> (Inr (v + s), c'')))"

text \<open>
  \<open>DropsCampaign.progress\<close>, a cached property: the sum divided by \<open>total_drops\<close>, with
  \<open>ZeroDivisionError\<close> for a zero divisor.
\<close>

definition campaign_progress :: "campaign \<Rightarrow> rat outcome" where
  "campaign_progress c =
     (case cached_campaign_progress c of
        Some v \<Rightarrow> (Inr v, c)
      | None \<Rightarrow>
          (case sum_progress (map fst (timed_drops c)) c of
             (Inl e, c') \<Rightarrow> (Inl e, c')
           | (Inr s, c') \<Rightarrow>
               (if total_drops c' = 0 then (Inl ZeroDivisionError, c')
                else
                  (let v = s / of_int (total_drops c')
                   in (Inr v, c'\<lparr>cached_campaign_progress := Some v\<rparr>)))))"

subsection \<open>Invalidation\<close>

text \<open>
  \<open>del obj.name\<close> on a \<open>functools.cached_property\<close>: the descriptor defines no
  \<open>__delete__\<close>, so the statement removes the entry of the instance dictionary and raises
  \<open>AttributeError\<close> when there is none, that is when the property has not been read since
  the last deletion.
\<close>

text \<open>\<open>DropsCampaign._on_minutes_changed\<close>.\<close>

definition DropsCampaign_on_minutes_changed :: "campaign \<Rightarrow> unit outcome" where
  "DropsCampaign_on_minutes_changed c =
     (if cached_campaign_progress c = None then (Inl AttributeError, c)
      else
        (let c1 = c\<lparr>cached_campaign_progress := None\<rparr>
         in if cached_total_remaining_minutes c1 = None then (Inl AttributeError, c1)
            else (Inr (), c1\<lparr>cached_total_remaining_minutes := None\<rparr>)))"

text \<open>\<open>TimedDrop._on_minutes_changed\<close>.\<close>

definition TimedDrop_on_minutes_changed :: "campaign \<Rightarrow> string \<Rightarrow> unit outcome" where
  "TimedDrop_on_minutes_changed c k =
     (case get_drop c k of
        None \<Rightarrow> (Inl NoSuchUnit, c)
      | Some d \<Rightarrow>
          (if cached_progress d = None then (Inl AttributeError, c)
           else
             (let c1 = upd_drop k (\<lambda>d. d\<lparr>cached_progress := None\<rparr>) c
              in if cached_remaining_minutes d = None then (Inl AttributeError, c1)
                 else DropsCampaign_on_minutes_changed
                        (upd_drop k (\<lambda>d. d\<lparr>cached_remaining_minutes := None\<rparr>) c1))))"

text \<open>\<open>BaseDrop._on_claim\<close>, on the unit object.\<close>

definition BaseDrop_on_claim :: "timed_drop \<Rightarrow> exn + timed_drop" where
  "BaseDrop_on_claim d =
     (if cached_preconditions d = None then Inl AttributeError
      else Inr (d\<lparr>cached_preconditions := None\<rparr>))"

text \<open>
  The loop of \<open>DropsCampaign._on_claim\<close> over \<open>timed_drops.values()\<close>: the first unit whose
  \<open>_on_claim\<close> raises ends it, the units before it having been invalidated.
\<close>

fun on_claim_loop :: "(string \<times> timed_drop) list \<Rightarrow> (exn + unit) \<times> (string \<times> timed_drop) list" where
  "on_claim_loop [] = (Inr (), [])"
| "on_claim_loop ((k, d) # ds) =
     (case BaseDrop_on_claim d of
        Inl e \<Rightarrow> (Inl e, (k, d) # ds)
      | Inr d' \<Rightarrow> (case on_claim_loop ds of (r, ds') \<Rightarrow> (r, (k, d') # ds')))"

text \<open>\<open>DropsCampaign._on_claim\<close>.\<close>

definition DropsCampaign_on_claim :: "campaign \<Rightarrow> unit outcome" where
  "DropsCampaign_on_claim c =
     (if cached_claimed_drops c = None then (Inl AttributeError, c)
      else
        (let c1 = c\<lparr>cached_claimed_drops := None\<rparr>
         in if cached_remaining_drops c1 = None then (Inl AttributeError, c1)
            else
              (let c2 = c1\<lparr>cached_remaining_drops := None\<rparr>
               in case on_claim_loop (timed_drops c2) of
                    (r, ds') \<Rightarrow> (r, c2\<lparr>timed_drops := ds'\<rparr>))))"

subsection \<open>Watched minutes\<close>

text \<open>\<open>TimedDrop.update_minutes\<close>.\<close>

definition update_minutes :: "campaign \<Rightarrow> string \<Rightarrow> int \<Rightarrow> unit outcome" where
  "update_minutes c k minutes =
     (case get_drop c k of
        None \<Rightarrow> (Inl NoSuchUnit, c)
      | Some d \<Rightarrow>
          TimedDrop_on_minutes_changed (upd_drop k (\<lambda>d. d\<lparr>current_minutes := minutes\<rparr>) c) k)"

text \<open>\<open>TimedDrop.bump_minutes\<close>.\<close>

definition bump_minutes :: "campaign \<Rightarrow> string \<Rightarrow> unit outcome" where
  "bump_minutes c k =
     (case get_drop c k of
        None \<Rightarrow> (Inl NoSuchUnit, c)
      | Some d \<Rightarrow>
          (if current_minutes d < required_minutes d
           then TimedDrop_on_minutes_changed
                  (upd_drop k (\<lambda>d. d\<lparr>current_minutes := current_minutes d + 1\<rparr>) c) k
           else (Inr (), c)))"

subsection \<open>Claiming\<close>

text \<open>
  How \<open>BaseDrop._claim\<close> reads the response of the request (lines 96 to 107): every
  subscript and membership test is a branch that can raise.
\<close>

definition claim_response :: "json \<Rightarrow> exn + bool" where
  "claim_response response =
     (case py_getitem response ''data'' of
        Inl e \<Rightarrow> Inl e
      | Inr data \<Rightarrow>
          (case (case py_contains ''errors'' data of
                   Inl e \<Rightarrow> Inl e
                 | Inr False \<Rightarrow> Inr False
                 | Inr True \<Rightarrow>
                     (case py_getitem data ''errors'' of
                        Inl e \<Rightarrow> Inl e
                      | Inr errs \<Rightarrow> Inr (truthy errs))) of
             Inl e \<Rightarrow> Inl e
           | Inr True \<Rightarrow> Inr False
           | Inr False \<Rightarrow>
               (case py_contains ''claimDropRewards'' data of
                  Inl e \<Rightarrow> Inl e
                | Inr False \<Rightarrow> Inr False
                | Inr True \<Rightarrow>
                    (case py_getitem data ''claimDropRewards'' of
                       Inl e \<Rightarrow> Inl e
                     | Inr cdr \<Rightarrow>
                         (if \<not> truthy cdr then Inr False
                          else
                            (case py_getitem cdr ''status'' of
                               Inl e \<Rightarrow> Inl e
                             | Inr st \<Rightarrow>
                                 (if st \<in> set [JStr ''ELIGIBLE_FOR_ALL'',
                                               JStr ''DROP_INSTANCE_ALREADY_CLAIMED'']
                                  then Inr True
                                  else Inr False)))))))"

text \<open>
  \<open>BaseDrop._claim\<close>. The transport is the parameter \<open>gql\<close>: the response it gives to the
  claim request carrying a token. A request is recorded in \<open>gql_log\<close>.
\<close>

definition BaseDrop_claim_inner :: "(string \<Rightarrow> json) \<Rightarrow> campaign \<Rightarrow> string \<Rightarrow> bool outcome" where
  "BaseDrop_claim_inner gql c k =
     (case get_drop c k of
        None \<Rightarrow> (Inl NoSuchUnit, c)
      | Some d \<Rightarrow>
          (if \<not> can_claim d then (Inr False, c)
           else if is_claimed d then (Inr True, c)
           else
             (case claim_id d of
                None \<Rightarrow> (Inr False, c)
              | Some token \<Rightarrow>
                  (claim_response (gql token), c\<lparr>gql_log := gql_log c @ [token]\<rparr>))))"

text \<open>\<open>BaseDrop.claim\<close>.\<close>

definition BaseDrop_claim :: "(string \<Rightarrow> json) \<Rightarrow> campaign \<Rightarrow> string \<Rightarrow> bool outcome" where
  "BaseDrop_claim gql c k =
     (case BaseDrop_claim_inner gql c k of
        (Inl e, c1) \<Rightarrow> (Inl e, c1)
      | (Inr result, c1) \<Rightarrow>
          (if result
           then
             (case DropsCampaign_on_claim (upd_drop k (\<lambda>d. d\<lparr>is_claimed := True\<rparr>) c1) of
                (Inl e, c2) \<Rightarrow> (Inl e, c2)
              | (Inr u, c2) \<Rightarrow> (Inr result, c2))
           else (Inr result, c1)))"

text \<open>\<open>TimedDrop.claim\<close>.\<close>

definition claim :: "(string \<Rightarrow> json) \<Rightarrow> campaign \<Rightarrow> string \<Rightarrow> bool outcome" where
  "claim gql c k =
     (case BaseDrop_claim gql c k of
        (Inl e, c1) \<Rightarrow> (Inl e, c1)
      | (Inr result, c1) \<Rightarrow>
          (if result
           then (Inr result, upd_drop k (\<lambda>d. d\<lparr>current_minutes := required_minutes d\<rparr>) c1)
           else (Inr result, c1)))"

section \<open>Scripts of calls\<close>

text \<open>
  The calls a client of the object graph can make: reads of the derived values, the two
  minute mutations and \<open>claim\<close>.
\<close>

datatype op =
    ReadProgress string
  | ReadRemainingMinutes string
  | ReadPreconditions string
  | ReadCanEarn string int int
  | ReadClaimedDrops
  | ReadRemainingDrops
  | ReadTotalRemainingMinutes
  | ReadCampaignProgress
  | UpdateMinutes string int
  | BumpMinutes string
  | Claim string

fun is_read :: "op \<Rightarrow> bool" where
  "is_read (UpdateMinutes k m) = False"
| "is_read (BumpMinutes k) = False"
| "is_read (Claim k) = False"
| "is_read x = True"

fun is_bump :: "op \<Rightarrow> bool" where
  "is_bump (BumpMinutes k) = True"
| "is_bump x = False"

fun is_claim :: "op \<Rightarrow> bool" where
  "is_claim (Claim k) = True"
| "is_claim x = False"

text \<open>Whether a call raised, and the object graph it left.\<close>

definition forget :: "'a outcome \<Rightarrow> bool \<times> campaign" where
  "forget r = (case r of (Inl e, c) \<Rightarrow> (True, c) | (Inr v, c) \<Rightarrow> (False, c))"

fun exec :: "(string \<Rightarrow> json) \<Rightarrow> op \<Rightarrow> campaign \<Rightarrow> bool \<times> campaign" where
  "exec gql (ReadProgress k) c = forget (TimedDrop_progress c k)"
| "exec gql (ReadRemainingMinutes k) c = forget (TimedDrop_remaining_minutes c k)"
| "exec gql (ReadPreconditions k) c = forget (BaseDrop_preconditions c k)"
| "exec gql (ReadCanEarn k now1 now2) c = forget (can_earn c k now1 now2)"
| "exec gql ReadClaimedDrops c = forget (claimed_drops c)"
| "exec gql ReadRemainingDrops c = forget (remaining_drops c)"
| "exec gql ReadTotalRemainingMinutes c = forget (total_remaining_minutes c)"
| "exec gql ReadCampaignProgress c = forget (campaign_progress c)"
| "exec gql (UpdateMinutes k m) c = forget (update_minutes c k m)"
| "exec gql (BumpMinutes k) c = forget (bump_minutes c k)"
| "exec gql (Claim k) c = forget (claim gql c k)"

text \<open>
  A script of calls, made one after the other by a caller that catches what a call
  raises and goes on: \<open>run\<close> is the object graph after the last call.
\<close>

fun run :: "(string \<Rightarrow> json) \<Rightarrow> op list \<Rightarrow> campaign \<Rightarrow> campaign" where
  "run gql [] c = c"
| "run gql (x # xs) c = run gql xs (snd (exec gql x c))"

text \<open>Every call of the script that is of kind \<open>P\<close> returned, none of them raised.\<close>

fun returned :: "(op \<Rightarrow> bool) \<Rightarrow> (string \<Rightarrow> json) \<Rightarrow> op list \<Rightarrow> campaign \<Rightarrow> bool" where
  "returned P gql [] c = True"
| "returned P gql (x # xs) c =
     ((P x \<longrightarrow> \<not> fst (exec gql x c)) \<and> returned P gql xs (snd (exec gql x c)))"

text \<open>Which calls of the script raised, in order.\<close>

fun raises :: "(string \<Rightarrow> json) \<Rightarrow> op list \<Rightarrow> campaign \<Rightarrow> bool list" where
  "raises gql [] c = []"
| "raises gql (x # xs) c = fst (exec gql x c) # raises gql xs (snd (exec gql x c))"

section \<open>Invariants of the caches\<close>

text \<open>
  What the two counts of a campaign depend on: the keys with the claim flag of each unit,
  and the two caches.
\<close>

definition claim_view :: "campaign \<Rightarrow> (string \<times> bool) list \<times> int option \<times> int option" where
  "claim_view c =
     (map (\<lambda>(k, d). (k, is_claimed d)) (timed_drops c),
      cached_claimed_drops c, cached_remaining_drops c)"

text \<open>A filled count cache holds what a recomputation would give.\<close>

definition counts_ok :: "campaign \<Rightarrow> bool" where
  "counts_ok c =
     ((\<forall>v. cached_claimed_drops c = Some v \<longrightarrow> v = count_claimed (timed_drops c))
      \<and> (\<forall>v. cached_remaining_drops c = Some v \<longrightarrow> v = count_unclaimed (timed_drops c)))"

text \<open>
  A filled minute cache of a unit holds what a recomputation would give, and \<open>tracks\<close>
  says so of the unit under key \<open>k\<close>, whose minutes are \<open>cur\<close> of \<open>req\<close>.
\<close>

definition minutes_ok :: "timed_drop \<Rightarrow> bool" where
  "minutes_ok d =
     ((\<forall>v. cached_remaining_minutes d = Some v \<longrightarrow> v = required_minutes d - current_minutes d)
      \<and> (\<forall>v. cached_progress d = Some v \<longrightarrow>
             v = of_int (current_minutes d) / of_int (required_minutes d)))"

definition tracks :: "campaign \<Rightarrow> string \<Rightarrow> int \<Rightarrow> int \<Rightarrow> bool" where
  "tracks c k cur req =
     (case get_drop c k of
        None \<Rightarrow> False
      | Some d \<Rightarrow> current_minutes d = cur \<and> required_minutes d = req \<and> minutes_ok d)"

text \<open>
  The caches that \<open>DropsCampaign._on_claim\<close> deletes are all filled: the two counts of the
  campaign and \<open>preconditions\<close> of every unit.
\<close>

definition claim_caches_filled :: "campaign \<Rightarrow> bool" where
  "claim_caches_filled c =
     (cached_claimed_drops c \<noteq> None \<and> cached_remaining_drops c \<noteq> None
      \<and> list_all (\<lambda>(k, d). cached_preconditions d \<noteq> None) (timed_drops c))"

section \<open>Example snapshots and responses\<close>

definition unit_snapshot ::
  "string \<Rightarrow> string option \<Rightarrow> bool \<Rightarrow> int \<Rightarrow> int \<Rightarrow> string list \<Rightarrow> drop_data" where
  "unit_snapshot k token claimed watched required pre =
     \<lparr>d_id = k, d_name = k, d_benefits = [], d_startAt = 0, d_endAt = 100,
      d_dropInstanceID = token, d_isClaimed = claimed, d_currentMinutesWatched = watched,
      d_requiredMinutesWatched = required, d_preconditionDrops = Some pre\<rparr>"

definition snapshot :: "drop_data list \<Rightarrow> campaign_data" where
  "snapshot ds =
     \<lparr>c_id = ''c'', c_name = ''c'', c_game = \<lparr>game_id = 1, game_name = ''g''\<rparr>,
      c_startAt = 0, c_endAt = 100, c_channels = None, c_timeBasedDrops = ds\<rparr>"

definition status_response :: "string \<Rightarrow> json" where
  "status_response s =
     JObj [(''data'', JObj [(''claimDropRewards'', JObj [(''status'', JStr s)])])]"

definition errors_response :: json where
  "errors_response = JObj [(''data'', JObj [(''errors'', JArr [JStr ''x''])])]"

text \<open>
  Two units: \<open>A\<close>, half watched, and \<open>B\<close>, which has \<open>A\<close> as its precondition. The
  transport accepts the claim of \<open>A\<close> and answers the claim of \<open>B\<close> with an error list.
\<close>

definition two_units :: campaign where
  "two_units =
     DropsCampaign_init
       (snapshot [unit_snapshot ''A'' (Some ''tokA'') False 15 30 [],
                  unit_snapshot ''B'' (Some ''tokB'') False 0 60 [''A'']])"

definition two_units_gql :: "string \<Rightarrow> json" where
  "two_units_gql token =
     (if token = ''tokA'' then status_response ''ELIGIBLE_FOR_ALL'' else errors_response)"

definition two_units_script :: "op list" where
  "two_units_script =
     [ReadClaimedDrops, ReadRemainingDrops, ReadCanEarn ''A'' 5 5, ReadCanEarn ''B'' 5 5,
      Claim ''A'', UpdateMinutes ''B'' 7, Claim ''B'']"

text \<open>A single unit that is fully watched and has no claim token yet.\<close>

definition tokenless :: campaign where
  "tokenless = DropsCampaign_init (snapshot [unit_snapshot ''A'' None False 30 30 []])"

text \<open>
  The calls that fill the caches of \<open>two_units\<close> which a claim of \<open>A\<close> deletes, together
  with the two minute caches of \<open>A\<close>; then the claim of \<open>A\<close>.
\<close>

definition all_read_script :: "op list" where
  "all_read_script =
     [ReadProgress ''A'', ReadRemainingMinutes ''A'', ReadClaimedDrops, ReadRemainingDrops,
      ReadPreconditions ''A'', ReadPreconditions ''B'']"

definition after_claim_A :: "bool outcome" where
  "after_claim_A = claim two_units_gql (run two_units_gql all_read_script two_units) ''A''"

text \<open>
  A unit that the snapshot reports claimed, without a claim token and with one; in the
  second campaign the caches that \<open>claim\<close> deletes have been read.
\<close>

definition claimed_tokenless :: campaign where
  "claimed_tokenless = DropsCampaign_init (snapshot [unit_snapshot ''A'' None True 0 30 []])"

definition claimed_with_token :: campaign where
  "claimed_with_token =
     run two_units_gql [ReadClaimedDrops, ReadRemainingDrops, ReadPreconditions ''A'']
       (DropsCampaign_init (snapshot [unit_snapshot ''A'' (Some ''tokA'') True 0 30 []]))"

text \<open>
  One unit with 0 of 30 minutes, and thirty ticks by a caller that reads the four derived
  values of the minutes before each tick.
\<close>

definition thirty_minutes :: campaign_data where
  "thirty_minutes = snapshot [unit_snapshot ''A'' (Some ''tokA'') False 0 30 []]"

definition thirty_ticks :: "op list" where
  "thirty_ticks =
     concat (replicate 30
       [ReadProgress ''A'', ReadRemainingMinutes ''A'', ReadTotalRemainingMinutes,
        ReadCampaignProgress, BumpMinutes ''A''])"

text \<open>
  Responses whose \<open>data\<close> holds a null \<open>claimDropRewards\<close>, and no entry at all.
\<close>

definition null_result_response :: json where
  "null_result_response = JObj [(''data'', JObj [(''claimDropRewards'', JNull)])]"

definition no_result_response :: json where
  "no_result_response = JObj [(''data'', JObj [])]"

text \<open>
  Thirty ticks in a row on the unit of \<open>thirty_minutes\<close>, after one read of its
  \<open>remaining_minutes\<close>; and in \<open>two_units\<close> one read of \<open>remaining_drops\<close>, then the claim
  of \<open>A\<close>.
\<close>

definition stale_ticks :: "op list" where
  "stale_ticks = ReadRemainingMinutes ''A'' # replicate 30 (BumpMinutes ''A'')"

definition one_stale_read :: "op list" where
  "one_stale_read = [ReadRemainingDrops, Claim ''A'']"

section \<open>Frame lemmas\<close>

lemma upd_drop_fields [simp]:
  "campaign_id (upd_drop k f c) = campaign_id c"
  "campaign_name (upd_drop k f c) = campaign_name c"
  "game (upd_drop k f c) = game c"
  "starts_at (upd_drop k f c) = starts_at c"
  "ends_at (upd_drop k f c) = ends_at c"
  "allowed_channels (upd_drop k f c) = allowed_channels c"
  "cached_claimed_drops (upd_drop k f c) = cached_claimed_drops c"
  "cached_remaining_drops (upd_drop k f c) = cached_remaining_drops c"
  "cached_total_remaining_minutes (upd_drop k f c) = cached_total_remaining_minutes c"
  "cached_campaign_progress (upd_drop k f c) = cached_campaign_progress c"
  "gql_log (upd_drop k f c) = gql_log c"
  by (simp_all add: upd_drop_def)

lemma get_drop_upd_drop:
  "get_drop (upd_drop k f c) k' = (if k' = k then map_option f (get_drop c k) else get_drop c k')"
  by (simp add: get_drop_def upd_drop_def map_of_map_entry split: option.splits)

lemma get_drop_other_fields [simp]:
  "get_drop (c\<lparr>cached_claimed_drops := a\<rparr>) k = get_drop c k"
  "get_drop (c\<lparr>cached_remaining_drops := a\<rparr>) k = get_drop c k"
  "get_drop (c\<lparr>cached_total_remaining_minutes := b\<rparr>) k = get_drop c k"
  "get_drop (c\<lparr>cached_campaign_progress := p\<rparr>) k = get_drop c k"
  "get_drop (c\<lparr>gql_log := l\<rparr>) k = get_drop c k"
  by (simp_all add: get_drop_def)

lemma map_entry_flags:
  assumes "\<And>d. is_claimed (f d) = is_claimed d"
  shows "map (\<lambda>(k, d). (k, is_claimed d)) (AList.map_entry k f xs)
           = map (\<lambda>(k, d). (k, is_claimed d)) xs"
proof (induction xs)
  case Nil
  show ?case by simp
next
  case (Cons p xs)
  obtain k' d where p: "p = (k', d)" by (cases p)
  show ?case using Cons.IH by (simp add: p assms)
qed

lemma claim_view_upd_drop:
  "(\<And>d. is_claimed (f d) = is_claimed d) \<Longrightarrow> claim_view (upd_drop k f c) = claim_view c"
  by (simp add: claim_view_def upd_drop_def map_entry_flags)

lemma claim_view_other_fields [simp]:
  "claim_view (c\<lparr>cached_total_remaining_minutes := b\<rparr>) = claim_view c"
  "claim_view (c\<lparr>cached_campaign_progress := p\<rparr>) = claim_view c"
  "claim_view (c\<lparr>gql_log := l\<rparr>) = claim_view c"
  by (simp_all add: claim_view_def)

lemma view_progress: "claim_view (snd (TimedDrop_progress c k)) = claim_view c"
  by (simp add: TimedDrop_progress_def claim_view_upd_drop Let_def split: option.splits)

lemma view_remaining: "claim_view (snd (TimedDrop_remaining_minutes c k)) = claim_view c"
  by (simp add: TimedDrop_remaining_minutes_def claim_view_upd_drop Let_def split: option.splits)

lemma view_preconditions: "claim_view (snd (BaseDrop_preconditions c k)) = claim_view c"
  by (simp add: BaseDrop_preconditions_def claim_view_upd_drop split: option.splits sum.splits)

lemma view_can_earn: "claim_view (snd (can_earn c k t1 t2)) = claim_view c"
  using view_preconditions [of c k]
  by (auto simp: can_earn_def split: prod.splits sum.splits option.splits)


lemma view_sum_remaining: "claim_view (snd (sum_remaining ks c)) = claim_view c"
proof (induction ks arbitrary: c)
  case Nil
  show ?case by simp
next
  case (Cons k ks)
  obtain r c' where r: "TimedDrop_remaining_minutes c k = (r, c')" by (cases "TimedDrop_remaining_minutes c k")
  then have v: "claim_view c' = claim_view c" using view_remaining [of c k] by simp
  show ?case using Cons.IH [of c'] v
    by (auto simp: r split: prod.splits sum.splits)
qed

lemma view_sum_progress: "claim_view (snd (sum_progress ks c)) = claim_view c"
proof (induction ks arbitrary: c)
  case Nil
  show ?case by simp
next
  case (Cons k ks)
  obtain r c' where r: "TimedDrop_progress c k = (r, c')" by (cases "TimedDrop_progress c k")
  then have v: "claim_view c' = claim_view c" using view_progress [of c k] by simp
  show ?case using Cons.IH [of c'] v
    by (auto simp: r split: prod.splits sum.splits)
qed

lemma view_total_remaining: "claim_view (snd (total_remaining_minutes c)) = claim_view c"
  using view_sum_remaining [of "map fst (timed_drops c)" c]
  by (auto simp: total_remaining_minutes_def split: option.splits prod.splits sum.splits)

lemma view_campaign_progress: "claim_view (snd (campaign_progress c)) = claim_view c"
  using view_sum_progress [of "map fst (timed_drops c)" c]
  by (auto simp: campaign_progress_def Let_def split: option.splits prod.splits sum.splits)

lemma view_campaign_minutes_changed:
  "claim_view (snd (DropsCampaign_on_minutes_changed c)) = claim_view c"
  by (simp add: DropsCampaign_on_minutes_changed_def Let_def)

lemma view_minutes_changed: "claim_view (snd (TimedDrop_on_minutes_changed c k)) = claim_view c"
  by (simp add: TimedDrop_on_minutes_changed_def Let_def view_campaign_minutes_changed
      claim_view_upd_drop split: option.splits)

lemma view_update_minutes: "claim_view (snd (update_minutes c k m)) = claim_view c"
  by (simp add: update_minutes_def view_minutes_changed claim_view_upd_drop split: option.splits)

lemma view_bump_minutes: "claim_view (snd (bump_minutes c k)) = claim_view c"
  by (simp add: bump_minutes_def view_minutes_changed claim_view_upd_drop split: option.splits)


lemma count_claimed_view:
  "count_claimed ds = (\<Sum>(k, b) \<leftarrow> map (\<lambda>(k, d). (k, is_claimed d)) ds. if b then 1 else 0)"
  by (induction ds) (auto simp: count_claimed_def)

lemma count_unclaimed_view:
  "count_unclaimed ds = (\<Sum>(k, b) \<leftarrow> map (\<lambda>(k, d). (k, is_claimed d)) ds. if \<not> b then 1 else 0)"
  by (induction ds) (auto simp: count_unclaimed_def)

lemma counts_sum: "count_claimed ds + count_unclaimed ds = int (length ds)"
  by (induction ds) (auto simp: count_claimed_def count_unclaimed_def)

lemma total_drops_view: "total_drops c = int (length (fst (claim_view c)))"
  by (simp add: total_drops_def claim_view_def)

lemma counts_ok_view: "claim_view c' = claim_view c \<Longrightarrow> counts_ok c' = counts_ok c"
  unfolding counts_ok_def
  by (simp add: claim_view_def count_claimed_view [of "timed_drops c'"]
      count_unclaimed_view [of "timed_drops c'"] count_claimed_view [of "timed_drops c"]
      count_unclaimed_view [of "timed_drops c"])

lemma counts_ok_init: "counts_ok (DropsCampaign_init data)"
  by (simp add: counts_ok_def DropsCampaign_init_def)

lemma counts_ok_claimed_drops: "counts_ok c \<Longrightarrow> counts_ok (snd (claimed_drops c))"
  by (auto simp: counts_ok_def claimed_drops_def Let_def split: option.splits)

lemma counts_ok_remaining_drops: "counts_ok c \<Longrightarrow> counts_ok (snd (remaining_drops c))"
  by (auto simp: counts_ok_def remaining_drops_def Let_def split: option.splits)

lemma total_claimed_drops: "total_drops (snd (claimed_drops c)) = total_drops c"
  by (simp add: total_drops_def claimed_drops_def Let_def split: option.splits)

lemma total_remaining_drops: "total_drops (snd (remaining_drops c)) = total_drops c"
  by (simp add: total_drops_def remaining_drops_def Let_def split: option.splits)

lemma on_claim_loop_keys: "map fst (snd (on_claim_loop ds)) = map fst ds"
proof (induction ds)
  case Nil
  show ?case by simp
next
  case (Cons p ds)
  obtain k d where p: "p = (k, d)" by (cases p)
  show ?case using Cons.IH by (auto simp: p split: sum.splits prod.splits)
qed

lemma map_entry_keys: "map fst (AList.map_entry k f xs) = map fst xs"
proof (induction xs)
  case Nil
  show ?case by simp
next
  case (Cons p xs)
  obtain k' d where p: "p = (k', d)" by (cases p)
  show ?case using Cons.IH by (simp add: p)
qed

lemma total_upd_drop [simp]: "total_drops (upd_drop k f c) = total_drops c"
  using map_entry_keys [of k f "timed_drops c", THEN arg_cong, of length]
  by (simp add: total_drops_def upd_drop_def)

lemma total_on_claim: "total_drops (snd (DropsCampaign_on_claim c)) = total_drops c"
  using on_claim_loop_keys [of "timed_drops c", THEN arg_cong, of length]
  by (auto simp: DropsCampaign_on_claim_def total_drops_def Let_def split: prod.splits)

lemma total_claim_inner: "total_drops (snd (BaseDrop_claim_inner gql c k)) = total_drops c"
  by (simp add: BaseDrop_claim_inner_def total_drops_def split: option.splits)

lemma total_claim: "total_drops (snd (claim gql c k)) = total_drops c"
proof -
  obtain r c1 where i: "BaseDrop_claim_inner gql c k = (r, c1)"
    by (cases "BaseDrop_claim_inner gql c k")
  have t1: "total_drops c1 = total_drops c" using total_claim_inner [of gql c k] by (simp add: i)
  have "total_drops (snd (BaseDrop_claim gql c k)) = total_drops c"
    using t1 total_on_claim [of "upd_drop k (\<lambda>d. d\<lparr>is_claimed := True\<rparr>) c1"]
    by (auto simp: BaseDrop_claim_def i split: sum.splits prod.splits)
  then show ?thesis
    by (auto simp: claim_def split: sum.splits prod.splits)
qed

lemma on_claim_returns:
  "DropsCampaign_on_claim c = (Inr u, c') \<Longrightarrow>
   cached_claimed_drops c' = None \<and> cached_remaining_drops c' = None"
  by (auto simp: DropsCampaign_on_claim_def Let_def split: if_splits prod.splits)

lemma claim_inner_view: "claim_view (snd (BaseDrop_claim_inner gql c k)) = claim_view c"
  by (simp add: BaseDrop_claim_inner_def split: option.splits)

lemma claim_returns_counts:
  assumes "claim gql c k = (Inr b, c')" and "counts_ok c"
  shows "counts_ok c'"
proof -
  obtain r c1 where i: "BaseDrop_claim_inner gql c k = (r, c1)"
    by (cases "BaseDrop_claim_inner gql c k")
  have v1: "claim_view c1 = claim_view c" using claim_inner_view [of gql c k] by (simp add: i)
  show ?thesis
  proof (cases b)
    case False
    then have "c' = c1" using assms(1)
      by (auto simp: claim_def BaseDrop_claim_def i split: sum.splits prod.splits if_splits)
    then show ?thesis using v1 assms(2) counts_ok_view by blast
  next
    case True
    then obtain u c2 where
      oc: "DropsCampaign_on_claim (upd_drop k (\<lambda>d. d\<lparr>is_claimed := True\<rparr>) c1) = (Inr u, c2)"
      and c': "c' = upd_drop k (\<lambda>d. d\<lparr>current_minutes := required_minutes d\<rparr>) c2"
      using assms(1)
      by (auto simp: claim_def BaseDrop_claim_def i split: sum.splits prod.splits if_splits)
    show ?thesis using on_claim_returns [OF oc] by (simp add: c' counts_ok_def)
  qed
qed


lemma forget_simps [simp]:
  "snd (forget r) = snd r"
  "fst (forget r) = isl (fst r)"
  by (auto simp: forget_def split: prod.splits sum.splits)

lemma exec_view:
  "\<not> is_claim x \<Longrightarrow> x \<noteq> ReadClaimedDrops \<Longrightarrow> x \<noteq> ReadRemainingDrops \<Longrightarrow>
   claim_view (snd (exec gql x c)) = claim_view c"
  by (cases x)
    (simp_all add: view_progress view_remaining view_preconditions view_can_earn
      view_total_remaining view_campaign_progress view_update_minutes view_bump_minutes)

lemma exec_total: "total_drops (snd (exec gql x c)) = total_drops c"
proof (cases "is_claim x \<or> x = ReadClaimedDrops \<or> x = ReadRemainingDrops")
  case True
  then show ?thesis
    by (cases x) (auto simp: total_claim total_claimed_drops total_remaining_drops)
next
  case False
  then show ?thesis using exec_view [of x gql c] by (simp add: total_drops_view)
qed

lemma exec_counts:
  assumes "counts_ok c" and "is_claim x \<longrightarrow> \<not> fst (exec gql x c)"
  shows "counts_ok (snd (exec gql x c))"
proof (cases "is_claim x \<or> x = ReadClaimedDrops \<or> x = ReadRemainingDrops")
  case False
  then have "claim_view (snd (exec gql x c)) = claim_view c" using exec_view [of x gql c] by simp
  then show ?thesis using assms(1) counts_ok_view [of "snd (exec gql x c)" c] by simp
next
  case True
  then consider (claim) k where "x = Claim k" | (cl) "x = ReadClaimedDrops" | (re) "x = ReadRemainingDrops"
    by (cases x) auto
  then show ?thesis
  proof cases
    case (claim k)
    obtain r c' where r: "claim gql c k = (r, c')" by (cases "claim gql c k")
    then obtain b where "r = Inr b" using assms(2) claim by (cases r) auto
    then show ?thesis using claim_returns_counts [of gql c k b c'] assms(1) r claim by simp
  next
    case cl
    then show ?thesis using counts_ok_claimed_drops [OF assms(1)] by simp
  next
    case re
    then show ?thesis using counts_ok_remaining_drops [OF assms(1)] by simp
  qed
qed

lemma run_counts:
  "counts_ok c \<Longrightarrow> returned is_claim gql ops c \<Longrightarrow>
   counts_ok (run gql ops c) \<and> total_drops (run gql ops c) = total_drops c"
proof (induction ops arbitrary: c)
  case Nil
  then show ?case by simp
next
  case (Cons x xs)
  have ok: "counts_ok (snd (exec gql x c))"
    using exec_counts [of c x gql] Cons.prems by simp
  have "returned is_claim gql xs (snd (exec gql x c))" using Cons.prems by simp
  from Cons.IH [OF ok this] show ?case by (simp add: exec_total)
qed

lemma counts_ok_reads:
  assumes "counts_ok c"
  shows "fst (claimed_drops c) = Inr (count_claimed (timed_drops c))"
    and "fst (remaining_drops c) = Inr (count_unclaimed (timed_drops c))"
    and "fst (remaining_drops (snd (claimed_drops c))) = Inr (count_unclaimed (timed_drops c))"
    and "fst (claimed_drops (snd (remaining_drops c))) = Inr (count_claimed (timed_drops c))"
  using assms
  by (auto simp: counts_ok_def claimed_drops_def remaining_drops_def Let_def split: option.splits)

section \<open>Minutes of a claimed unit\<close>

lemma TimedDrop_init_claimed:
  "d_isClaimed data \<Longrightarrow>
   current_minutes (TimedDrop_init data) = required_minutes (TimedDrop_init data)"
  by (simp add: TimedDrop_init_def)

text \<open>
  C1, at the input where the code departs from it. Unit \<open>A\<close> of \<open>two_units\<close> needs 30
  minutes and has 15; its \<open>progress\<close> and \<open>remaining_minutes\<close> have been read. The claim of
  \<open>A\<close> returns true and leaves the unit claimed with \<open>current_minutes = required_minutes\<close>,
  yet \<open>progress\<close> still reads one half and \<open>remaining_minutes\<close> still reads 15:
  \<open>TimedDrop.claim\<close> assigns \<open>current_minutes\<close> without deleting the two caches.
\<close>

theorem stale_minutes_after_claim:
  "fst after_claim_A = Inr True
   \<and> map_option is_claimed (get_drop (snd after_claim_A) ''A'') = Some True
   \<and> map_option current_minutes (get_drop (snd after_claim_A) ''A'') = Some 30
   \<and> map_option required_minutes (get_drop (snd after_claim_A) ''A'') = Some 30
   \<and> fst (TimedDrop_progress (snd after_claim_A) ''A'') = Inr (1 / 2)
   \<and> fst (TimedDrop_remaining_minutes (snd after_claim_A) ''A'') = Inr 15"
  by code_simp

section \<open>A campaign without units\<close>

text \<open>
  C2, at the input where the code departs from it. For a campaign built from a snapshot
  with no units, reading \<open>progress\<close> raises \<open>ZeroDivisionError\<close>: the empty sum is divided
  by \<open>total_drops\<close>, which is zero.
\<close>

theorem zero_units_progress_raises:
  "fst (campaign_progress (DropsCampaign_init (data\<lparr>c_timeBasedDrops := []\<rparr>)))
     = Inl ZeroDivisionError"
  by (simp add: campaign_progress_def DropsCampaign_init_def build_drops_def total_drops_def)

section \<open>Invalidation of caches that were never filled\<close>

text \<open>
  C3, at the inputs where the code departs from it. On a campaign just built from a
  snapshot with one unit, \<open>update_minutes\<close> raises \<open>AttributeError\<close>, and so does
  \<open>bump_minutes\<close> on a unit below its required minutes: \<open>progress\<close> has not been read and
  cannot be deleted. In \<open>two_units\<close>, with both counts and the preconditions of \<open>A\<close> read but
  the preconditions of \<open>B\<close> never read, the accepted claim of \<open>A\<close> raises \<open>AttributeError\<close>.
\<close>

theorem invalidation_raises:
  "fst (update_minutes (DropsCampaign_init (data\<lparr>c_timeBasedDrops := [d]\<rparr>)) (d_id d) m)
     = Inl AttributeError
   \<and> fst (bump_minutes
            (DropsCampaign_init
               (data\<lparr>c_timeBasedDrops :=
                  [d\<lparr>d_isClaimed := False, d_currentMinutesWatched := 0,
                     d_requiredMinutesWatched := 30\<rparr>]\<rparr>)) (d_id d))
     = Inl AttributeError
   \<and> fst (claim two_units_gql
            (run two_units_gql [ReadClaimedDrops, ReadRemainingDrops, ReadPreconditions ''A'']
               two_units) ''A'')
     = Inl AttributeError"
proof -
  have a: "fst (update_minutes (DropsCampaign_init (data\<lparr>c_timeBasedDrops := [d]\<rparr>)) (d_id d) m)
     = Inl AttributeError"
    by (simp add: update_minutes_def TimedDrop_on_minutes_changed_def DropsCampaign_init_def
        build_drops_def get_drop_def upd_drop_def TimedDrop_init_def)
  have b: "fst (bump_minutes
            (DropsCampaign_init
               (data\<lparr>c_timeBasedDrops :=
                  [d\<lparr>d_isClaimed := False, d_currentMinutesWatched := 0,
                     d_requiredMinutesWatched := 30\<rparr>]\<rparr>)) (d_id d))
     = Inl AttributeError"
    by (simp add: bump_minutes_def TimedDrop_on_minutes_changed_def DropsCampaign_init_def
        build_drops_def get_drop_def upd_drop_def TimedDrop_init_def)
  have c: "fst (claim two_units_gql
            (run two_units_gql [ReadClaimedDrops, ReadRemainingDrops, ReadPreconditions ''A'']
               two_units) ''A'')
     = Inl AttributeError"
    by code_simp
  from a b c show ?thesis by simp
qed

section \<open>Claiming a unit that is already claimed\<close>

lemma log_on_claim: "gql_log (snd (DropsCampaign_on_claim c)) = gql_log c"
  by (auto simp: DropsCampaign_on_claim_def Let_def split: prod.splits)

lemma on_claim_loop_filled:
  "list_all (\<lambda>(k, d). cached_preconditions d \<noteq> None) ds \<Longrightarrow> fst (on_claim_loop ds) = Inr ()"
proof (induction ds)
  case Nil
  show ?case by simp
next
  case (Cons p ds)
  obtain k d where p: "p = (k, d)" by (cases p)
  from Cons.prems have d: "cached_preconditions d \<noteq> None"
    and rest: "list_all (\<lambda>(k, d). cached_preconditions d \<noteq> None) ds"
    by (simp_all add: p)
  from Cons.IH [OF rest] d show ?case
    by (auto simp: p BaseDrop_on_claim_def split: prod.splits)
qed

lemma map_entry_filled:
  assumes "\<And>d. cached_preconditions (f d) = cached_preconditions d"
  shows "list_all (\<lambda>(k, d). cached_preconditions d \<noteq> None) (AList.map_entry k f xs)
           = list_all (\<lambda>(k, d). cached_preconditions d \<noteq> None) xs"
proof (induction xs)
  case Nil
  show ?case by simp
next
  case (Cons p xs)
  obtain k' d where p: "p = (k', d)" by (cases p)
  show ?case using Cons.IH by (simp add: p assms)
qed

lemma on_claim_filled:
  "claim_caches_filled c \<Longrightarrow> fst (DropsCampaign_on_claim c) = Inr ()"
  using on_claim_loop_filled [of "timed_drops c"]
  by (auto simp: claim_caches_filled_def DropsCampaign_on_claim_def Let_def split: prod.splits)

lemma claim_decided_true:
  assumes "BaseDrop_claim_inner gql c k = (Inr True, c1)" and "claim_caches_filled c1"
  shows "fst (claim gql c k) = Inr True"
proof -
  let ?c2 = "upd_drop k (\<lambda>d. d\<lparr>is_claimed := True\<rparr>) c1"
  have "claim_caches_filled ?c2"
    using assms(2)
    by (simp add: claim_caches_filled_def upd_drop_def map_entry_filled del: not_None_eq)
  then have "fst (DropsCampaign_on_claim ?c2) = Inr ()" by (rule on_claim_filled)
  then show ?thesis
    by (auto simp: claim_def BaseDrop_claim_def assms(1) split: prod.splits sum.splits)
qed

text \<open>
  C4, as amended. For a unit that is already claimed \<open>claim\<close> sends no request. Without a
  claim token it returns false and changes nothing. With a claim token \<open>_claim\<close> answers true
  at once, and \<open>claim\<close> returns true on every object graph in which the caches that the
  claim notification deletes are filled.
\<close>

theorem claimed_short_circuit:
  assumes "get_drop c k = Some d" and "is_claimed d"
  shows "gql_log (snd (claim gql c k)) = gql_log c
         \<and> (claim_id d = None \<longrightarrow> claim gql c k = (Inr False, c))
         \<and> (claim_id d \<noteq> None \<longrightarrow>
               BaseDrop_claim_inner gql c k = (Inr True, c)
               \<and> (claim_caches_filled c \<longrightarrow> fst (claim gql c k) = Inr True))"
proof (cases "claim_id d")
  case None
  then show ?thesis using assms
    by (simp add: claim_def BaseDrop_claim_def BaseDrop_claim_inner_def can_claim_def)
next
  case (Some token)
  have i: "BaseDrop_claim_inner gql c k = (Inr True, c)"
    using assms Some by (simp add: BaseDrop_claim_inner_def can_claim_def)
  obtain r c2 where oc:
    "DropsCampaign_on_claim (upd_drop k (\<lambda>d. d\<lparr>is_claimed := True\<rparr>) c) = (r, c2)"
    by (cases "DropsCampaign_on_claim (upd_drop k (\<lambda>d. d\<lparr>is_claimed := True\<rparr>) c)")
  have l: "gql_log c2 = gql_log c"
    using log_on_claim [of "upd_drop k (\<lambda>d. d\<lparr>is_claimed := True\<rparr>) c"] by (simp add: oc)
  have lg: "gql_log (snd (claim gql c k)) = gql_log c"
    using l by (cases r) (simp_all add: claim_def BaseDrop_claim_def oc i)
  show ?thesis using Some i lg claim_decided_true [OF i] by simp
qed

text \<open>
  The claim as stated fails for a claimed unit without a token: \<open>claim\<close> returns false.
\<close>

theorem claimed_without_token_counterexample:
  "map_option is_claimed (get_drop claimed_tokenless ''A'') = Some True
   \<and> fst (claim two_units_gql claimed_tokenless ''A'') = Inr False"
  by code_simp

theorem claimed_short_circuit_witness:
  "claim_caches_filled claimed_with_token
   \<and> gql_log (snd (claim two_units_gql claimed_with_token ''A'')) = gql_log claimed_with_token
   \<and> BaseDrop_claim_inner two_units_gql claimed_with_token ''A'' = (Inr True, claimed_with_token)
   \<and> fst (claim two_units_gql claimed_with_token ''A'') = Inr True
   \<and> claim two_units_gql claimed_tokenless ''A'' = (Inr False, claimed_tokenless)"
proof -
  let ?d = "the (get_drop claimed_with_token ''A'')"
  let ?d' = "the (get_drop claimed_tokenless ''A'')"
  have h1: "get_drop claimed_with_token ''A'' = Some ?d" by code_simp
  have h2: "is_claimed ?d" by code_simp
  have h3: "claim_id ?d \<noteq> None" by code_simp
  have h4: "claim_caches_filled claimed_with_token" by code_simp
  have g1: "get_drop claimed_tokenless ''A'' = Some ?d'" by code_simp
  have g2: "is_claimed ?d'" by code_simp
  have g3: "claim_id ?d' = None" by code_simp
  show ?thesis
    using claimed_short_circuit [OF h1 h2, of two_units_gql]
      claimed_short_circuit [OF g1 g2, of two_units_gql] h3 h4 g3
    by simp
qed

section \<open>A claim the server does not accept\<close>

lemma claim_response_dict:
  "py_getitem response ''data'' = Inr (JObj kvs) \<Longrightarrow>
   claim_response response =
     (if (case map_of kvs ''errors'' of None \<Rightarrow> False | Some errs \<Rightarrow> truthy errs) then Inr False
      else (case map_of kvs ''claimDropRewards'' of
              None \<Rightarrow> Inr False
            | Some cdr \<Rightarrow>
                if \<not> truthy cdr then Inr False
                else (case py_getitem cdr ''status'' of
                        Inl e \<Rightarrow> Inl e
                      | Inr st \<Rightarrow> Inr (st = JStr ''ELIGIBLE_FOR_ALL''
                                       \<or> st = JStr ''DROP_INSTANCE_ALREADY_CLAIMED''))))"
  by (auto simp: claim_response_def split: option.splits sum.splits bool.splits)

lemma claim_request:
  "get_drop c k = Some d \<Longrightarrow> claim_id d = Some token \<Longrightarrow> \<not> is_claimed d \<Longrightarrow>
   BaseDrop_claim_inner gql c k = (claim_response (gql token), c\<lparr>gql_log := gql_log c @ [token]\<rparr>)"
  by (simp add: BaseDrop_claim_inner_def can_claim_def)

lemma claim_of_false:
  "BaseDrop_claim_inner gql c k = (Inr False, c1) \<Longrightarrow> claim gql c k = (Inr False, c1)"
  by (simp add: claim_def BaseDrop_claim_def)

text \<open>
  C5. A unit with a claim token that is not claimed sends the request. When the \<open>data\<close> of
  the response is a dict that carries a non-empty \<open>errors\<close> list (or any other \<open>errors\<close>
  value that counts as true), or has no \<open>claimDropRewards\<close> entry, or has one that is null
  or otherwise counts as false, or carries a \<open>status\<close> other than the two accepted strings,
  \<open>claim\<close> returns false and leaves the object graph as it was, but for the request in the
  log: the unit stays unclaimed.
\<close>

theorem claim_failure:
  assumes "get_drop c k = Some d" and "claim_id d = Some token" and "\<not> is_claimed d"
    and "py_getitem (gql token) ''data'' = Inr (JObj kvs)"
    and "(\<exists>errs. map_of kvs ''errors'' = Some errs \<and> truthy errs)
         \<or> map_of kvs ''claimDropRewards'' = None
         \<or> (\<exists>res. map_of kvs ''claimDropRewards'' = Some res \<and> \<not> truthy res)
         \<or> (\<exists>r st. map_of kvs ''claimDropRewards'' = Some (JObj r)
                \<and> map_of r ''status'' = Some st
                \<and> st \<noteq> JStr ''ELIGIBLE_FOR_ALL''
                \<and> st \<noteq> JStr ''DROP_INSTANCE_ALREADY_CLAIMED'')"
  shows "claim gql c k = (Inr False, c\<lparr>gql_log := gql_log c @ [token]\<rparr>)
         \<and> get_drop (snd (claim gql c k)) k = Some d"
proof -
  have "claim_response (gql token) = Inr False"
    using assms(5) by (auto simp: claim_response_dict [OF assms(4)] split: option.splits)
  then have "BaseDrop_claim_inner gql c k = (Inr False, c\<lparr>gql_log := gql_log c @ [token]\<rparr>)"
    using claim_request [OF assms(1-3)] by simp
  then have "claim gql c k = (Inr False, c\<lparr>gql_log := gql_log c @ [token]\<rparr>)"
    by (rule claim_of_false)
  then show ?thesis using assms(1) by (simp add: get_drop_def)
qed

theorem claim_failure_witness:
  "claim (\<lambda>t. errors_response) two_units ''B''
     = (Inr False, two_units\<lparr>gql_log := gql_log two_units @ [''tokB'']\<rparr>)
   \<and> claim (\<lambda>t. no_result_response) two_units ''B''
     = (Inr False, two_units\<lparr>gql_log := gql_log two_units @ [''tokB'']\<rparr>)
   \<and> claim (\<lambda>t. null_result_response) two_units ''B''
     = (Inr False, two_units\<lparr>gql_log := gql_log two_units @ [''tokB'']\<rparr>)
   \<and> claim (\<lambda>t. status_response ''SOMETHING_NEW'') two_units ''B''
     = (Inr False, two_units\<lparr>gql_log := gql_log two_units @ [''tokB'']\<rparr>)"
proof -
  let ?d = "TimedDrop_init (unit_snapshot ''B'' (Some ''tokB'') False 0 60 [''A''])"
  have h1: "get_drop two_units ''B'' = Some ?d" by code_simp
  have h2: "claim_id ?d = Some ''tokB''" by code_simp
  have h3: "\<not> is_claimed ?d" by code_simp
  have e: "py_getitem ((\<lambda>t. errors_response) ''tokB'') ''data''
             = Inr (JObj [(''errors'', JArr [JStr ''x''])])"
    by code_simp
  have a: "py_getitem ((\<lambda>t. no_result_response) ''tokB'') ''data'' = Inr (JObj [])"
    by code_simp
  have n: "py_getitem ((\<lambda>t. null_result_response) ''tokB'') ''data''
             = Inr (JObj [(''claimDropRewards'', JNull)])"
    by code_simp
  have s: "py_getitem ((\<lambda>t. status_response ''SOMETHING_NEW'') ''tokB'') ''data''
             = Inr (JObj [(''claimDropRewards'', JObj [(''status'', JStr ''SOMETHING_NEW'')])])"
    by code_simp
  show ?thesis
    using claim_failure [OF h1 h2 h3 e] claim_failure [OF h1 h2 h3 a]
      claim_failure [OF h1 h2 h3 n] claim_failure [OF h1 h2 h3 s]
    by simp
qed

section \<open>A claim unblocks the units that wait for it\<close>

lemma on_claim_loop_returns:
  "on_claim_loop ds = (Inr u, ds') \<Longrightarrow>
   ds' = map (\<lambda>(k, d). (k, d\<lparr>cached_preconditions := None\<rparr>)) ds"
proof (induction ds arbitrary: ds')
  case Nil
  then show ?case by simp
next
  case (Cons p ds)
  obtain k d where p: "p = (k, d)" by (cases p)
  obtain r ds1 where l: "on_claim_loop ds = (r, ds1)" by (cases "on_claim_loop ds")
  from Cons.prems have d: "cached_preconditions d \<noteq> None" and r: "r = Inr u"
    and ds': "ds' = (k, d\<lparr>cached_preconditions := None\<rparr>) # ds1"
    by (auto simp: p l BaseDrop_on_claim_def split: if_splits)
  from Cons.IH [of ds1] l r have "ds1 = map (\<lambda>(k, d). (k, d\<lparr>cached_preconditions := None\<rparr>)) ds"
    by simp
  then show ?case by (simp add: ds' p)
qed

lemma on_claim_returns_drops:
  assumes "DropsCampaign_on_claim c = (Inr u, c')"
  shows "get_drop c' k = map_option (\<lambda>d. d\<lparr>cached_preconditions := None\<rparr>) (get_drop c k)"
    and "starts_at c' = starts_at c" and "ends_at c' = ends_at c"
proof -
  obtain r ds' where l: "on_claim_loop (timed_drops c) = (r, ds')"
    by (cases "on_claim_loop (timed_drops c)")
  from assms have r: "r = Inr u"
    and c': "c' = c\<lparr>cached_claimed_drops := None, cached_remaining_drops := None, timed_drops := ds'\<rparr>"
    by (auto simp: DropsCampaign_on_claim_def Let_def l split: if_splits)
  have ds': "ds' = map (\<lambda>(k, d). (k, d\<lparr>cached_preconditions := None\<rparr>)) (timed_drops c)"
    using on_claim_loop_returns [of "timed_drops c" u ds'] l r by simp
  show "get_drop c' k = map_option (\<lambda>d. d\<lparr>cached_preconditions := None\<rparr>) (get_drop c k)"
    by (simp add: c' ds' get_drop_def map_of_map)
  show "starts_at c' = starts_at c" and "ends_at c' = ends_at c"
    by (simp_all add: c')
qed

lemma claim_inner_drops:
  "get_drop (snd (BaseDrop_claim_inner gql c k)) k' = get_drop c k'"
  "starts_at (snd (BaseDrop_claim_inner gql c k)) = starts_at c"
  "ends_at (snd (BaseDrop_claim_inner gql c k)) = ends_at c"
  by (simp_all add: BaseDrop_claim_inner_def split: option.splits)

lemma claim_true_state:
  assumes "claim gql c k = (Inr True, c')"
  shows "get_drop c' k' =
           map_option
             (\<lambda>d. if k' = k
                   then d\<lparr>is_claimed := True, cached_preconditions := None,
                          current_minutes := required_minutes d\<rparr>
                   else d\<lparr>cached_preconditions := None\<rparr>)
             (get_drop c k')"
    and "starts_at c' = starts_at c" and "ends_at c' = ends_at c"
proof -
  obtain r c1 where i: "BaseDrop_claim_inner gql c k = (r, c1)"
    by (cases "BaseDrop_claim_inner gql c k")
  have g1: "\<And>k'. get_drop c1 k' = get_drop c k'"
    and s1: "starts_at c1 = starts_at c" and e1: "ends_at c1 = ends_at c"
    using claim_inner_drops [of gql c k] by (simp_all add: i)
  from assms obtain u c2 where
    oc: "DropsCampaign_on_claim (upd_drop k (\<lambda>d. d\<lparr>is_claimed := True\<rparr>) c1) = (Inr u, c2)"
    and c': "c' = upd_drop k (\<lambda>d. d\<lparr>current_minutes := required_minutes d\<rparr>) c2"
    by (auto simp: claim_def BaseDrop_claim_def i split: sum.splits prod.splits if_splits)
  note oc' = on_claim_returns_drops [OF oc]
  show "get_drop c' k' =
           map_option
             (\<lambda>d. if k' = k
                   then d\<lparr>is_claimed := True, cached_preconditions := None,
                          current_minutes := required_minutes d\<rparr>
                   else d\<lparr>cached_preconditions := None\<rparr>)
             (get_drop c k')"
    by (cases "get_drop c k'") (auto simp: c' get_drop_upd_drop oc'(1) g1)
  show "starts_at c' = starts_at c" and "ends_at c' = ends_at c"
    by (simp_all add: c' oc' s1 e1)
qed

lemma all_claimed_True:
  "(\<And>pid. pid \<in> set pids \<Longrightarrow> \<exists>p. map_of ds pid = Some p \<and> is_claimed p) \<Longrightarrow>
   all_claimed ds pids = Inr True"
proof (induction pids)
  case Nil
  show ?case by simp
next
  case (Cons pid pids)
  obtain p where "map_of ds pid = Some p" and "is_claimed p"
    using Cons.prems [of pid] by auto
  moreover have "all_claimed ds pids = Inr True"
    using Cons.IH Cons.prems by simp
  ultimately show ?case by simp
qed

lemma all_claimed_False:
  "A \<in> set pids \<Longrightarrow> map_of ds A = Some a \<Longrightarrow> \<not> is_claimed a \<Longrightarrow>
   (\<And>pid. pid \<in> set pids \<Longrightarrow> pid \<noteq> A \<Longrightarrow> \<exists>p. map_of ds pid = Some p \<and> is_claimed p) \<Longrightarrow>
   all_claimed ds pids = Inr False"
proof (induction pids)
  case Nil
  then show ?case by simp
next
  case (Cons pid pids)
  show ?case
  proof (cases "pid = A")
    case True
    then show ?thesis using Cons.prems(2,3) by simp
  next
    case False
    then obtain p where p: "map_of ds pid = Some p" "is_claimed p"
      using Cons.prems(4) [of pid] by auto
    have "A \<in> set pids" using Cons.prems(1) False by simp
    then have "all_claimed ds pids = Inr False"
      using Cons.IH Cons.prems(2,3,4) by simp
    then show ?thesis using p by simp
  qed
qed

lemma can_earn_cached:
  "get_drop c k = Some d \<Longrightarrow> cached_preconditions d = Some v \<Longrightarrow>
   fst (can_earn c k now1 now2)
     = Inr (v \<and> \<not> is_claimed d \<and> active c now1 \<and> drop_starts_at d \<le> now2 \<and> now2 < drop_ends_at d)"
  by (simp add: can_earn_def BaseDrop_preconditions_def)

lemma can_earn_uncached:
  "get_drop c k = Some d \<Longrightarrow> cached_preconditions d = None \<Longrightarrow>
   fst (can_earn c k now1 now2)
     = (case all_claimed (timed_drops c) (precondition_drops d) of
          Inl e \<Rightarrow> Inl e
        | Inr v \<Rightarrow> Inr (v \<and> \<not> is_claimed d \<and> active c now1
                        \<and> drop_starts_at d \<le> now2 \<and> now2 < drop_ends_at d))"
  by (simp add: can_earn_def BaseDrop_preconditions_def get_drop_upd_drop active_def
      split: sum.splits)


text \<open>
  C6. Let the claim of unit \<open>A\<close> return true, and let \<open>B\<close> be another unit of the campaign.
  The next read of \<open>can_earn\<close> of \<open>B\<close> scans the preconditions of \<open>B\<close> anew, in the object
  graph the claim left. When \<open>A\<close> is a precondition of \<open>B\<close> and was unclaimed, the other
  preconditions of \<open>B\<close> are claimed, the cache of \<open>B\<close> was not stale, and \<open>B\<close> is unclaimed
  inside both time windows, then \<open>can_earn\<close> of \<open>B\<close> read false before the claim and reads
  true after it.
\<close>

theorem claim_unblocks_sibling:
  assumes "claim gql c A = (Inr True, c')" and "get_drop c B = Some b" and "B \<noteq> A"
  shows "fst (can_earn c' B now1 now2)
           = (case all_claimed (timed_drops c') (precondition_drops b) of
                Inl e \<Rightarrow> Inl e
              | Inr v \<Rightarrow> Inr (v \<and> \<not> is_claimed b \<and> active c now1
                              \<and> drop_starts_at b \<le> now2 \<and> now2 < drop_ends_at b))
         \<and> (A \<in> set (precondition_drops b)
              \<and> (\<exists>a. get_drop c A = Some a \<and> \<not> is_claimed a)
              \<and> (\<forall>pid \<in> set (precondition_drops b).
                    pid \<noteq> A \<longrightarrow> (\<exists>p. get_drop c pid = Some p \<and> is_claimed p))
              \<and> (\<forall>v. cached_preconditions b = Some v \<longrightarrow>
                    all_claimed (timed_drops c) (precondition_drops b) = Inr v)
              \<and> \<not> is_claimed b \<and> active c now1
              \<and> drop_starts_at b \<le> now2 \<and> now2 < drop_ends_at b
            \<longrightarrow> fst (can_earn c B now1 now2) = Inr False
                \<and> fst (can_earn c' B now1 now2) = Inr True)"
proof -
  note st = claim_true_state [OF assms(1)]
  let ?b' = "b\<lparr>cached_preconditions := None\<rparr>"
  have b': "get_drop c' B = Some ?b'" using st(1) [of B] assms(2,3) by simp
  have act: "active c' now1 = active c now1" by (simp add: active_def st(2,3))
  have after: "fst (can_earn c' B now1 now2)
           = (case all_claimed (timed_drops c') (precondition_drops b) of
                Inl e \<Rightarrow> Inl e
              | Inr v \<Rightarrow> Inr (v \<and> \<not> is_claimed b \<and> active c now1
                              \<and> drop_starts_at b \<le> now2 \<and> now2 < drop_ends_at b))"
    using can_earn_uncached [OF b', of now1 now2] by (simp add: act split: sum.splits)
  have flip: "fst (can_earn c B now1 now2) = Inr False \<and> fst (can_earn c' B now1 now2) = Inr True"
    if A: "A \<in> set (precondition_drops b)"
      and a: "\<exists>a. get_drop c A = Some a \<and> \<not> is_claimed a"
      and others: "\<forall>pid \<in> set (precondition_drops b).
                    pid \<noteq> A \<longrightarrow> (\<exists>p. get_drop c pid = Some p \<and> is_claimed p)"
      and cache: "\<forall>v. cached_preconditions b = Some v \<longrightarrow>
                    all_claimed (timed_drops c) (precondition_drops b) = Inr v"
      and rest: "\<not> is_claimed b" "active c now1" "drop_starts_at b \<le> now2" "now2 < drop_ends_at b"
  proof
    from a obtain a0 where a0: "map_of (timed_drops c) A = Some a0" "\<not> is_claimed a0"
      by (auto simp: get_drop_def)
    have scan: "all_claimed (timed_drops c) (precondition_drops b) = Inr False"
      using all_claimed_False [OF A a0] others by (simp add: get_drop_def)
    show "fst (can_earn c B now1 now2) = Inr False"
    proof (cases "cached_preconditions b")
      case None
      then show ?thesis using can_earn_uncached [OF assms(2), of now1 now2] scan by simp
    next
      case (Some v)
      then have "v = False" using cache scan by simp
      then show ?thesis using can_earn_cached [OF assms(2) Some, of now1 now2] by simp
    qed
    have "\<exists>p. map_of (timed_drops c') pid = Some p \<and> is_claimed p"
      if mem: "pid \<in> set (precondition_drops b)" for pid
    proof (cases "pid = A")
      case True
      then show ?thesis using st(1) [of A] a by (auto simp: get_drop_def)
    next
      case False
      then have "\<exists>p. get_drop c pid = Some p \<and> is_claimed p" using others mem by blast
      then obtain p where "get_drop c pid = Some p" "is_claimed p" by blast
      then show ?thesis using st(1) [of pid] False by (auto simp: get_drop_def)
    qed
    then have "all_claimed (timed_drops c') (precondition_drops b) = Inr True"
      by (rule all_claimed_True)
    then show "fst (can_earn c' B now1 now2) = Inr True"
      using after rest by simp
  qed
  from after flip show ?thesis by blast
qed

theorem claim_unblocks_sibling_witness:
  "fst (can_earn (run two_units_gql all_read_script two_units) ''B'' 5 5) = Inr False
   \<and> fst (can_earn (snd after_claim_A) ''B'' 5 5) = Inr True"
proof -
  let ?c = "run two_units_gql all_read_script two_units"
  let ?b = "the (get_drop ?c ''B'')"
  have h1: "claim two_units_gql ?c ''A'' = (Inr True, snd after_claim_A)"
    by code_simp
  have h2: "get_drop ?c ''B'' = Some ?b" by code_simp
  have h3: "''B'' \<noteq> ''A''" by simp
  have pre: "precondition_drops ?b = [''A'']" by code_simp
  have h4: "''A'' \<in> set (precondition_drops ?b)" by (simp add: pre)
  have "get_drop ?c ''A'' = Some (the (get_drop ?c ''A''))
        \<and> \<not> is_claimed (the (get_drop ?c ''A''))"
    by code_simp
  then have h5: "\<exists>a. get_drop ?c ''A'' = Some a \<and> \<not> is_claimed a" by blast
  have h6: "\<forall>pid \<in> set (precondition_drops ?b).
              pid \<noteq> ''A'' \<longrightarrow> (\<exists>p. get_drop ?c pid = Some p \<and> is_claimed p)"
    by (simp add: pre)
  have h7: "\<forall>v. cached_preconditions ?b = Some v \<longrightarrow>
              all_claimed (timed_drops ?c) (precondition_drops ?b) = Inr v"
    by code_simp
  have h8: "\<not> is_claimed ?b \<and> active ?c 5 \<and> drop_starts_at ?b \<le> 5 \<and> 5 < drop_ends_at ?b"
    by code_simp
  from claim_unblocks_sibling [OF h1 h2 h3, of 5 5] h4 h5 h6 h7 h8
  show ?thesis by blast
qed

section \<open>The counts of a campaign\<close>

text \<open>
  C7, at the input where the code departs from it. In \<open>two_units\<close> with only
  \<open>remaining_drops\<close> read, the accepted claim of \<open>A\<close> sets \<open>is_claimed\<close> and then raises at
  the first deletion, that of \<open>claimed_drops\<close>, which was never read: the cache of
  \<open>remaining_drops\<close> survives, and the two counts read 1 and 2 for 2 units.
\<close>

theorem counts_stale_after_raised_claim:
  "raises two_units_gql one_stale_read two_units = [False, True]
   \<and> map_option is_claimed (get_drop (run two_units_gql one_stale_read two_units) ''A'')
       = Some True
   \<and> fst (claimed_drops (run two_units_gql one_stale_read two_units)) = Inr 1
   \<and> fst (remaining_drops (run two_units_gql one_stale_read two_units)) = Inr 2
   \<and> total_drops (run two_units_gql one_stale_read two_units) = 2"
  by code_simp

text \<open>
  What holds all the same: over any script of calls on a campaign built from a snapshot
  in which every call of \<open>claim\<close> returned, with true or with false, \<open>claimed_drops\<close> and
  \<open>remaining_drops\<close>, read in either order, add up to \<open>total_drops\<close>, and \<open>total_drops\<close> is
  what it was at construction.
\<close>

lemma counts_add_up:
  assumes "returned is_claim gql ops (DropsCampaign_init data)"
  shows "\<exists>a b. fst (claimed_drops (run gql ops (DropsCampaign_init data))) = Inr a
           \<and> fst (remaining_drops (run gql ops (DropsCampaign_init data))) = Inr b
           \<and> fst (remaining_drops (snd (claimed_drops (run gql ops (DropsCampaign_init data))))) = Inr b
           \<and> fst (claimed_drops (snd (remaining_drops (run gql ops (DropsCampaign_init data))))) = Inr a
           \<and> a + b = total_drops (run gql ops (DropsCampaign_init data))
           \<and> total_drops (run gql ops (DropsCampaign_init data))
               = total_drops (DropsCampaign_init data)"
proof -
  let ?c = "run gql ops (DropsCampaign_init data)"
  have ok: "counts_ok ?c" and t: "total_drops ?c = total_drops (DropsCampaign_init data)"
    using run_counts [OF counts_ok_init assms] by simp_all
  have "count_claimed (timed_drops ?c) + count_unclaimed (timed_drops ?c) = total_drops ?c"
    by (simp add: counts_sum total_drops_def)
  then show ?thesis using counts_ok_reads [OF ok] t by blast
qed


lemma counts_add_up_example:
  "returned is_claim two_units_gql two_units_script two_units
   \<and> (\<exists>a b. fst (claimed_drops (run two_units_gql two_units_script two_units)) = Inr a
          \<and> fst (remaining_drops (run two_units_gql two_units_script two_units)) = Inr b
          \<and> a + b = total_drops (run two_units_gql two_units_script two_units)
          \<and> total_drops (run two_units_gql two_units_script two_units) = total_drops two_units)
   \<and> fst (claimed_drops (run two_units_gql two_units_script two_units)) = Inr 1
   \<and> total_drops two_units = 2"
proof -
  have h: "returned is_claim two_units_gql two_units_script two_units"
    by code_simp
  have r: "fst (claimed_drops (run two_units_gql two_units_script two_units)) = Inr 1"
    by code_simp
  have t: "total_drops two_units = 2"
    by code_simp
  show ?thesis
    using h r t counts_add_up [OF h [unfolded two_units_def]]
    unfolding two_units_def by blast
qed

section \<open>Ticks of watched minutes\<close>

lemma tracks_other_fields [simp]:
  "tracks (c\<lparr>cached_claimed_drops := a\<rparr>) k cur req = tracks c k cur req"
  "tracks (c\<lparr>cached_remaining_drops := a\<rparr>) k cur req = tracks c k cur req"
  "tracks (c\<lparr>cached_total_remaining_minutes := b\<rparr>) k cur req = tracks c k cur req"
  "tracks (c\<lparr>cached_campaign_progress := p\<rparr>) k cur req = tracks c k cur req"
  by (simp_all add: tracks_def)

lemma tracks_upd_other: "k' \<noteq> k \<Longrightarrow> tracks (upd_drop k' f c) k cur req = tracks c k cur req"
  by (simp add: tracks_def get_drop_upd_drop)

lemma tracks_progress: "tracks c k cur req \<Longrightarrow> tracks (snd (TimedDrop_progress c k')) k cur req"
  by (auto simp: TimedDrop_progress_def tracks_def get_drop_upd_drop minutes_ok_def Let_def
      split: option.splits)

lemma tracks_remaining:
  "tracks c k cur req \<Longrightarrow> tracks (snd (TimedDrop_remaining_minutes c k')) k cur req"
  by (auto simp: TimedDrop_remaining_minutes_def tracks_def get_drop_upd_drop minutes_ok_def Let_def
      split: option.splits)

lemma tracks_preconditions:
  "tracks c k cur req \<Longrightarrow> tracks (snd (BaseDrop_preconditions c k')) k cur req"
  by (auto simp: BaseDrop_preconditions_def tracks_def get_drop_upd_drop minutes_ok_def
      split: option.splits sum.splits)

lemma tracks_can_earn:
  "tracks c k cur req \<Longrightarrow> tracks (snd (can_earn c k' now1 now2)) k cur req"
  using tracks_preconditions [of c k cur req k']
  by (auto simp: can_earn_def split: prod.splits sum.splits option.splits)

lemma tracks_claimed_drops: "tracks c k cur req \<Longrightarrow> tracks (snd (claimed_drops c)) k cur req"
  by (simp add: claimed_drops_def Let_def split: option.splits)

lemma tracks_remaining_drops: "tracks c k cur req \<Longrightarrow> tracks (snd (remaining_drops c)) k cur req"
  by (simp add: remaining_drops_def Let_def split: option.splits)

lemma tracks_sum_remaining:
  "tracks c k cur req \<Longrightarrow> tracks (snd (sum_remaining ks c)) k cur req"
proof (induction ks arbitrary: c)
  case Nil
  then show ?case by simp
next
  case (Cons k' ks)
  obtain r c' where r: "TimedDrop_remaining_minutes c k' = (r, c')"
    by (cases "TimedDrop_remaining_minutes c k'")
  then have "tracks c' k cur req" using tracks_remaining [OF Cons.prems, of k'] by simp
  then show ?case using Cons.IH [of c'] by (auto simp: r split: prod.splits sum.splits)
qed

lemma tracks_sum_progress:
  "tracks c k cur req \<Longrightarrow> tracks (snd (sum_progress ks c)) k cur req"
proof (induction ks arbitrary: c)
  case Nil
  then show ?case by simp
next
  case (Cons k' ks)
  obtain r c' where r: "TimedDrop_progress c k' = (r, c')"
    by (cases "TimedDrop_progress c k'")
  then have "tracks c' k cur req" using tracks_progress [OF Cons.prems, of k'] by simp
  then show ?case using Cons.IH [of c'] by (auto simp: r split: prod.splits sum.splits)
qed

lemma tracks_total_remaining:
  "tracks c k cur req \<Longrightarrow> tracks (snd (total_remaining_minutes c)) k cur req"
  using tracks_sum_remaining [of c k cur req "map fst (timed_drops c)"]
  by (auto simp: total_remaining_minutes_def split: option.splits prod.splits sum.splits)

lemma tracks_campaign_progress:
  "tracks c k cur req \<Longrightarrow> tracks (snd (campaign_progress c)) k cur req"
  using tracks_sum_progress [of c k cur req "map fst (timed_drops c)"]
  by (auto simp: campaign_progress_def Let_def split: option.splits prod.splits sum.splits)

lemma tracks_read: "is_read x \<Longrightarrow> tracks c k cur req \<Longrightarrow> tracks (snd (exec gql x c)) k cur req"
  by (cases x)
    (simp_all add: tracks_progress tracks_remaining tracks_preconditions tracks_can_earn
      tracks_claimed_drops tracks_remaining_drops tracks_total_remaining tracks_campaign_progress)


lemma tracks_campaign_minutes_changed:
  "tracks (snd (DropsCampaign_on_minutes_changed c)) k cur req = tracks c k cur req"
  by (simp add: DropsCampaign_on_minutes_changed_def Let_def)

lemma get_drop_campaign_minutes_changed:
  "get_drop (snd (DropsCampaign_on_minutes_changed c)) k = get_drop c k"
  by (simp add: DropsCampaign_on_minutes_changed_def Let_def)

lemma campaign_minutes_changed_returns:
  "fst (DropsCampaign_on_minutes_changed c) \<noteq> Inl NoSuchUnit"
  by (simp add: DropsCampaign_on_minutes_changed_def Let_def)

text \<open>The minute invalidation of another unit leaves unit \<open>k\<close> alone.\<close>

lemma tracks_minutes_changed_other:
  "k' \<noteq> k \<Longrightarrow>
   tracks (snd (TimedDrop_on_minutes_changed c k')) k cur req = tracks c k cur req"
  by (simp add: TimedDrop_on_minutes_changed_def Let_def tracks_campaign_minutes_changed
      tracks_upd_other split: option.splits)

text \<open>When the minute invalidation of unit \<open>k\<close> returns, both minute caches are empty.\<close>

lemma minutes_changed_returns:
  assumes "TimedDrop_on_minutes_changed c k = (Inr u, c')" and "get_drop c k = Some d"
  shows "get_drop c' k = Some (d\<lparr>cached_progress := None, cached_remaining_minutes := None\<rparr>)"
proof -
  let ?c2 = "upd_drop k (\<lambda>d. d\<lparr>cached_remaining_minutes := None\<rparr>)
               (upd_drop k (\<lambda>d. d\<lparr>cached_progress := None\<rparr>) c)"
  from assms have "c' = snd (DropsCampaign_on_minutes_changed ?c2)"
    by (auto simp: TimedDrop_on_minutes_changed_def Let_def split: if_splits)
  then show ?thesis
    using assms(2) by (simp add: get_drop_campaign_minutes_changed get_drop_upd_drop)
qed

lemma bump_other:
  "k' \<noteq> k \<Longrightarrow> tracks c k cur req \<Longrightarrow> tracks (snd (bump_minutes c k')) k cur req"
  by (simp add: bump_minutes_def tracks_minutes_changed_other tracks_upd_other
      split: option.splits)

lemma bump_saturated:
  "get_drop c k = Some d \<Longrightarrow> \<not> current_minutes d < required_minutes d \<Longrightarrow>
   bump_minutes c k = (Inr (), c)"
  by (simp add: bump_minutes_def)

lemma minutes_changed_current:
  "get_drop c k = Some d \<Longrightarrow>
   map_option current_minutes (get_drop (snd (TimedDrop_on_minutes_changed c k)) k)
     = Some (current_minutes d)"
  by (simp add: TimedDrop_on_minutes_changed_def Let_def get_drop_campaign_minutes_changed
      get_drop_upd_drop)

lemma bump_current:
  assumes "get_drop c k = Some d" and "current_minutes d < required_minutes d"
  shows "map_option current_minutes (get_drop (snd (bump_minutes c k)) k)
           = Some (current_minutes d + 1)"
proof -
  let ?c1 = "upd_drop k (\<lambda>d. d\<lparr>current_minutes := current_minutes d + 1\<rparr>) c"
  have b: "bump_minutes c k = TimedDrop_on_minutes_changed ?c1 k"
    using assms by (simp add: bump_minutes_def)
  have g: "get_drop ?c1 k = Some (d\<lparr>current_minutes := current_minutes d + 1\<rparr>)"
    using assms(1) by (simp add: get_drop_upd_drop)
  from minutes_changed_current [OF g] show ?thesis by (simp add: b)
qed

lemma bump_self:
  assumes "tracks c k cur req" and "fst (bump_minutes c k) = Inr u"
  shows "tracks (snd (bump_minutes c k)) k (if cur < req then cur + 1 else cur) req"
proof -
  from assms(1) obtain d where d: "get_drop c k = Some d" "current_minutes d = cur"
    "required_minutes d = req" "minutes_ok d"
    by (auto simp: tracks_def split: option.splits)
  show ?thesis
  proof (cases "cur < req")
    case False
    then show ?thesis using bump_saturated [OF d(1)] d assms(1) by simp
  next
    case True
    let ?c1 = "upd_drop k (\<lambda>d. d\<lparr>current_minutes := current_minutes d + 1\<rparr>) c"
    have b: "bump_minutes c k = TimedDrop_on_minutes_changed ?c1 k"
      using d True by (simp add: bump_minutes_def)
    have g: "get_drop ?c1 k = Some (d\<lparr>current_minutes := current_minutes d + 1\<rparr>)"
      using d(1) by (simp add: get_drop_upd_drop)
    obtain c' where r: "TimedDrop_on_minutes_changed ?c1 k = (Inr u, c')"
      using assms(2) b by (cases "TimedDrop_on_minutes_changed ?c1 k") simp
    from minutes_changed_returns [OF r g] show ?thesis
      using d True by (simp add: b r tracks_def minutes_ok_def)
  qed
qed

lemma tracks_bump:
  assumes "tracks c k cur req" and "\<not> fst (exec gql (BumpMinutes k') c)"
  shows "tracks (snd (exec gql (BumpMinutes k') c)) k
           (if k' = k \<and> cur < req then cur + 1 else cur) req"
proof (cases "k' = k")
  case False
  then show ?thesis using bump_other [OF _ assms(1), of k'] by simp
next
  case True
  from assms(2) obtain u where "fst (bump_minutes c k') = Inr u"
    by (cases "fst (bump_minutes c k')") simp_all
  then show ?thesis using bump_self [OF assms(1), of u] True by simp
qed

lemma run_tracks:
  "tracks c k cur req \<Longrightarrow> cur \<le> req \<Longrightarrow> \<forall>x \<in> set ops. is_read x \<or> is_bump x \<Longrightarrow>
   returned is_bump gql ops c \<Longrightarrow>
   tracks (run gql ops c) k
     (min req (cur + int (length (filter (\<lambda>x. x = BumpMinutes k) ops)))) req"
proof (induction ops arbitrary: c cur)
  case Nil
  then show ?case by simp
next
  case (Cons x xs)
  let ?c = "snd (exec gql x c)"
  let ?cur = "if x = BumpMinutes k \<and> cur < req then cur + 1 else cur"
  have step: "tracks ?c k ?cur req"
  proof (cases "is_read x")
    case True
    then have "x \<noteq> BumpMinutes k" by auto
    then show ?thesis using tracks_read [OF True Cons.prems(1), of gql] by simp
  next
    case False
    then obtain k' where x: "x = BumpMinutes k'" using Cons.prems(3) by (cases x) auto
    have "\<not> fst (exec gql (BumpMinutes k') c)" using Cons.prems(4) x by simp
    from tracks_bump [OF Cons.prems(1) this] show ?thesis by (simp add: x)
  qed
  have le: "?cur \<le> req" using Cons.prems(2) by simp
  have "tracks (run gql xs ?c) k
          (min req (?cur + int (length (filter (\<lambda>x. x = BumpMinutes k) xs)))) req"
    using Cons.IH [OF step le] Cons.prems(3,4) by simp
  moreover have "min req (?cur + int (length (filter (\<lambda>x. x = BumpMinutes k) xs)))
      = min req (cur + int (length (filter (\<lambda>x. x = BumpMinutes k) (x # xs))))"
    using Cons.prems(2) by auto
  ultimately show ?case by simp
qed

lemma tracks_init:
  "get_drop (DropsCampaign_init data) k = Some d \<Longrightarrow> cached_progress d = None \<Longrightarrow>
   cached_remaining_minutes d = None \<Longrightarrow>
   tracks (DropsCampaign_init data) k (current_minutes d) (required_minutes d)"
  by (simp add: tracks_def minutes_ok_def)

lemma saturated_reads:
  assumes "tracks c k req req" and "req \<noteq> 0"
  shows "fst (TimedDrop_progress c k) = Inr 1"
    and "fst (TimedDrop_remaining_minutes c k) = Inr 0"
    and "map_option current_minutes (get_drop c k) = Some req"
    and "bump_minutes c k = (Inr (), c)"
  using assms
  by (auto simp: tracks_def minutes_ok_def TimedDrop_progress_def TimedDrop_remaining_minutes_def
      bump_minutes_def Let_def split: option.splits)


lemma build_drops_values:
  "map_of (fold (\<lambda>d acc. AList.update (d_id d) (TimedDrop_init d) acc) ds acc) k = Some d \<Longrightarrow>
   map_of acc k = Some d \<or> (\<exists>x \<in> set ds. d = TimedDrop_init x)"
proof (induction ds arbitrary: acc)
  case Nil
  then show ?case by simp
next
  case (Cons x xs)
  from Cons.IH [of "AList.update (d_id x) (TimedDrop_init x) acc"] Cons.prems
  show ?case by (auto simp: update_conv' split: if_splits)
qed

lemma init_caches_empty:
  assumes "get_drop (DropsCampaign_init data) k = Some d"
  shows "cached_progress d = None" and "cached_remaining_minutes d = None"
proof -
  from assms have "map_of (build_drops (c_timeBasedDrops data)) k = Some d"
    by (simp add: get_drop_def DropsCampaign_init_def)
  then obtain x where "d = TimedDrop_init x"
    using build_drops_values [of "c_timeBasedDrops data" "[]" k d]
    by (auto simp: build_drops_def)
  then show "cached_progress d = None" and "cached_remaining_minutes d = None"
    by (simp_all add: TimedDrop_init_def)
qed

text \<open>
  C8, at the inputs where the code departs from it. On the unit of \<open>thirty_minutes\<close>, just
  built with 0 of 30 minutes, a tick raises \<open>AttributeError\<close>, and so does each of thirty
  ticks in a row: \<open>progress\<close> has not been read and cannot be deleted. With
  \<open>remaining_minutes\<close> read once before the thirty ticks, \<open>current_minutes\<close> ends at 30 and
  \<open>remaining_minutes\<close> still reads 30.
\<close>

theorem ticks_raise_on_unread_caches:
  "fst (bump_minutes (DropsCampaign_init thirty_minutes) ''A'') = Inl AttributeError
   \<and> raises two_units_gql (replicate 30 (BumpMinutes ''A'')) (DropsCampaign_init thirty_minutes)
       = replicate 30 True
   \<and> raises two_units_gql stale_ticks (DropsCampaign_init thirty_minutes)
       = False # replicate 30 True
   \<and> map_option current_minutes
        (get_drop (run two_units_gql stale_ticks (DropsCampaign_init thirty_minutes)) ''A'')
       = Some 30
   \<and> fst (TimedDrop_remaining_minutes
            (run two_units_gql stale_ticks (DropsCampaign_init thirty_minutes)) ''A'') = Inr 30"
  by code_simp

text \<open>
  What holds all the same: \<open>bump_minutes\<close> adds exactly 1 to \<open>current_minutes\<close> of a unit
  below its required minutes, and is a no-op that returns at once for a unit at its
  required minutes. For a unit built with 0 watched minutes and a positive requirement:
  after a script of reads and ticks in which every tick returned and as many ticks as the
  requirement went to the unit, \<open>progress\<close> reads 1, \<open>remaining_minutes\<close> reads 0,
  \<open>current_minutes\<close> is the requirement, and one more tick changes nothing.
\<close>

lemma bump_minutes_ticks:
  "(get_drop c k = Some d \<longrightarrow> current_minutes d < required_minutes d \<longrightarrow>
      map_option current_minutes (get_drop (snd (bump_minutes c k)) k)
        = Some (current_minutes d + 1))
   \<and> (get_drop c k = Some d \<longrightarrow> current_minutes d = required_minutes d \<longrightarrow>
        bump_minutes c k = (Inr (), c))
   \<and> (get_drop (DropsCampaign_init data) k' = Some d' \<longrightarrow>
        current_minutes d' = 0 \<longrightarrow> 0 < required_minutes d' \<longrightarrow>
        (\<forall>x \<in> set ops. is_read x \<or> is_bump x) \<longrightarrow>
        returned is_bump gql ops (DropsCampaign_init data) \<longrightarrow>
        int (length (filter (\<lambda>x. x = BumpMinutes k') ops)) = required_minutes d' \<longrightarrow>
        fst (TimedDrop_progress (run gql ops (DropsCampaign_init data)) k') = Inr 1
        \<and> fst (TimedDrop_remaining_minutes (run gql ops (DropsCampaign_init data)) k') = Inr 0
        \<and> map_option current_minutes (get_drop (run gql ops (DropsCampaign_init data)) k')
            = Some (required_minutes d')
        \<and> bump_minutes (run gql ops (DropsCampaign_init data)) k'
            = (Inr (), run gql ops (DropsCampaign_init data)))"
proof (intro conjI impI)
  assume "get_drop c k = Some d" and "current_minutes d < required_minutes d"
  then show "map_option current_minutes (get_drop (snd (bump_minutes c k)) k)
        = Some (current_minutes d + 1)"
    by (rule bump_current)
next
  assume "get_drop c k = Some d" and "current_minutes d = required_minutes d"
  then show "bump_minutes c k = (Inr (), c)"
    by (simp add: bump_saturated)
next
  let ?c0 = "DropsCampaign_init data"
  let ?req = "required_minutes d'"
  assume d': "get_drop ?c0 k' = Some d'" and cur: "current_minutes d' = 0"
    and req: "0 < ?req"
    and ops: "\<forall>x \<in> set ops. is_read x \<or> is_bump x"
    and ret: "returned is_bump gql ops ?c0"
    and n: "int (length (filter (\<lambda>x. x = BumpMinutes k') ops)) = ?req"
  have "tracks ?c0 k' 0 ?req"
    using tracks_init [OF d' init_caches_empty [OF d']] cur by simp
  from run_tracks [OF this _ ops ret] req n
  have t: "tracks (run gql ops ?c0) k' ?req ?req" by simp
  have ne: "?req \<noteq> 0" using req by simp
  note sat = saturated_reads [OF t ne]
  show "fst (TimedDrop_progress (run gql ops ?c0) k') = Inr 1" by (rule sat(1))
  show "fst (TimedDrop_remaining_minutes (run gql ops ?c0) k') = Inr 0" by (rule sat(2))
  show "map_option current_minutes (get_drop (run gql ops ?c0) k') = Some ?req" by (rule sat(3))
  show "bump_minutes (run gql ops ?c0) k' = (Inr (), run gql ops ?c0)" by (rule sat(4))
qed

lemma bump_minutes_ticks_example:
  "map_option current_minutes
     (get_drop (snd (bump_minutes (DropsCampaign_init thirty_minutes) ''A'')) ''A'') = Some 1
   \<and> returned is_bump two_units_gql thirty_ticks (DropsCampaign_init thirty_minutes)
   \<and> fst (TimedDrop_progress
            (run two_units_gql thirty_ticks (DropsCampaign_init thirty_minutes)) ''A'') = Inr 1
   \<and> fst (TimedDrop_remaining_minutes
            (run two_units_gql thirty_ticks (DropsCampaign_init thirty_minutes)) ''A'') = Inr 0
   \<and> map_option current_minutes
        (get_drop (run two_units_gql thirty_ticks (DropsCampaign_init thirty_minutes)) ''A'')
       = Some 30
   \<and> bump_minutes (run two_units_gql thirty_ticks (DropsCampaign_init thirty_minutes)) ''A''
       = (Inr (), run two_units_gql thirty_ticks (DropsCampaign_init thirty_minutes))"
proof -
  let ?c0 = "DropsCampaign_init thirty_minutes"
  let ?d = "the (get_drop ?c0 ''A'')"
  have h1: "get_drop ?c0 ''A'' = Some ?d" by code_simp
  have h2: "current_minutes ?d = 0" by code_simp
  have h3: "required_minutes ?d = 30" by code_simp
  have h4: "\<forall>x \<in> set thirty_ticks. is_read x \<or> is_bump x" by code_simp
  have h5: "returned is_bump two_units_gql thirty_ticks ?c0" by code_simp
  have h6: "int (length (filter (\<lambda>x. x = BumpMinutes ''A'') thirty_ticks)) = 30" by code_simp
  show ?thesis
    using bump_minutes_ticks [of ?c0 "''A''" ?d thirty_minutes "''A''" ?d thirty_ticks two_units_gql]
      h1 h2 h3 h4 h5 h6
    by simp
qed

section \<open>A unit without a claim token\<close>

text \<open>
  C9. \<open>can_claim\<close> holds exactly when the claim token is present, and does not look at the
  time window. For a unit without a token \<open>claim\<close> returns false and leaves the object graph
  as it was, the log of requests included.
\<close>

theorem no_token_no_claim:
  "can_claim d = (claim_id d \<noteq> None)
   \<and> can_claim (d\<lparr>drop_starts_at := s, drop_ends_at := e\<rparr>) = can_claim d
   \<and> (get_drop c k = Some d \<longrightarrow> \<not> can_claim d \<longrightarrow> claim gql c k = (Inr False, c))"
  by (simp add: can_claim_def claim_def BaseDrop_claim_def BaseDrop_claim_inner_def)

theorem no_token_no_claim_witness:
  "\<not> can_claim (TimedDrop_init (unit_snapshot ''A'' None False 30 30 []))
   \<and> claim two_units_gql tokenless ''A'' = (Inr False, tokenless)"
proof -
  let ?d = "TimedDrop_init (unit_snapshot ''A'' None False 30 30 [])"
  have h1: "get_drop tokenless ''A'' = Some ?d" by code_simp
  have h2: "\<not> can_claim ?d" by code_simp
  show ?thesis
    using h1 h2 no_token_no_claim [of ?d 0 0 tokenless "''A''" two_units_gql] by simp
qed

section \<open>Identity by id\<close>

text \<open>
  C10. Equality and hash of two Game values are determined by the id alone: with equal
  ids they compare equal and hash alike whatever their names, with unequal ids they
  compare unequal.
\<close>

theorem Game_eq_hash_by_id:
  "(game_id a = game_id b \<longrightarrow>
      Game_eq a (GameObj b) = Some True \<and> Game_hash h a = Game_hash h b)
   \<and> (game_id a \<noteq> game_id b \<longrightarrow> Game_eq a (GameObj b) = Some False)"
  by (simp add: Game_hash_def)

theorem Game_eq_hash_by_id_witness:
  "Game_eq \<lparr>game_id = 7, game_name = ''old''\<rparr> (GameObj \<lparr>game_id = 7, game_name = ''new''\<rparr>)
     = Some True
   \<and> Game_hash (\<lambda>(n, i). i + 1) \<lparr>game_id = 7, game_name = ''old''\<rparr>
     = Game_hash (\<lambda>(n, i). i + 1) \<lparr>game_id = 7, game_name = ''new''\<rparr>
   \<and> Game_eq \<lparr>game_id = 7, game_name = ''old''\<rparr> (GameObj \<lparr>game_id = 8, game_name = ''old''\<rparr>)
     = Some False"
  using Game_eq_hash_by_id [of "\<lparr>game_id = 7, game_name = ''old''\<rparr>"
      "\<lparr>game_id = 7, game_name = ''new''\<rparr>" "\<lambda>(n, i). i + 1"]
    Game_eq_hash_by_id [of "\<lparr>game_id = 7, game_name = ''old''\<rparr>"
      "\<lparr>game_id = 8, game_name = ''old''\<rparr>" "\<lambda>(n, i). i + 1"]
  by simp

end
